theory Spec2Isabelle
  imports Complex_Main
begin

section \<open>Numbers of the arrays\<close>

text \<open>
  The arrays of PYPOWER hold complex double-precision numbers. A finite number is modelled
  by the exact complex number it stands for (rounding and overflow are not modelled). A
  division by zero does not raise in numpy: it stores \<open>inf\<close> or \<open>nan\<close> in the array. All
  such non-finite results are the one value \<open>NonFin\<close>, which every operation of this
  program passes on.
\<close>

datatype cval = Fin complex | NonFin

instantiation cval :: "{comm_monoid_add, comm_monoid_mult, uminus, minus}"
begin

definition zero_cval :: cval where
  "zero_cval = Fin 0"

definition one_cval :: cval where
  "one_cval = Fin 1"

fun plus_cval :: "cval \<Rightarrow> cval \<Rightarrow> cval" where
  "plus_cval (Fin a) (Fin b) = Fin (a + b)"
| "plus_cval _ _ = NonFin"

fun times_cval :: "cval \<Rightarrow> cval \<Rightarrow> cval" where
  "times_cval (Fin a) (Fin b) = Fin (a * b)"
| "times_cval _ _ = NonFin"

fun uminus_cval :: "cval \<Rightarrow> cval" where
  "uminus_cval (Fin a) = Fin (- a)"
| "uminus_cval NonFin = NonFin"

definition minus_cval :: "cval \<Rightarrow> cval \<Rightarrow> cval" where
  "minus_cval a b = a + (- b)"

instance
proof
  fix x y z :: cval
  show "x + y = y + x"
    by (cases x; cases y; simp)
  show "x * y = y * x"
    by (cases x; cases y; simp)
  show "0 + x = x"
    unfolding zero_cval_def by (cases x; simp)
  show "1 * x = x"
    unfolding one_cval_def by (cases x; simp)
  show "(x + y) + z = x + (y + z)"
    by (cases x; cases y; cases z; simp)
  show "(x * y) * z = x * (y * z)"
    by (cases x; cases y; cases z; simp)
qed

end

text \<open>\<open>x / d\<close> for an array value \<open>x\<close> and a finite divisor \<open>d\<close>: numpy stores a non-finite
  value when \<open>d\<close> is zero (\<open>0 / 0\<close> is \<open>nan\<close>, anything else over zero is \<open>inf\<close> or \<open>nan\<close>).\<close>

fun cdiv :: "cval \<Rightarrow> complex \<Rightarrow> cval" where
  "cdiv (Fin a) d = (if d = 0 then NonFin else Fin (a / d))"
| "cdiv NonFin d = NonFin"

text \<open>numpy's \<open>conj\<close> on one array value.\<close>

fun conj_cval :: "cval \<Rightarrow> cval" where
  "conj_cval (Fin a) = Fin (cnj a)"
| "conj_cval NonFin = NonFin"

section \<open>Sparse matrices\<close>

text \<open>
  A scipy sparse matrix is its shape and its stored entries, as coordinate triples
  (row, column, value). Several stored entries at one coordinate stand for their sum, and
  only stored entries take part in a product: a coordinate with no stored entry is an exact
  zero. The only exception of this part of scipy is \<open>ValueError\<close>.
\<close>

datatype error = ValueError

record smat =
  nrows :: nat
  ncols :: nat
  elems :: "(nat \<times> nat \<times> cval) list"

text \<open>The value of the matrix at a coordinate: the sum of the entries stored there.\<close>

definition entry :: "smat \<Rightarrow> nat \<Rightarrow> nat \<Rightarrow> cval" where
  "entry M i j = (\<Sum>(r, c, v) \<leftarrow> elems M. if r = i \<and> c = j then v else 0)"

text \<open>\<open>csr_matrix((data, (rows, cols)), (m, n))\<close>: the index arrays and the data have one
  length and every index lies within the shape, or scipy raises \<open>ValueError\<close>.\<close>

definition csr_matrix :: "cval list \<Rightarrow> nat list \<times> nat list \<Rightarrow> nat \<times> nat \<Rightarrow> error + smat" where
  "csr_matrix data ij shape =
     (case ij of (rows, cols) \<Rightarrow> case shape of (m, n) \<Rightarrow>
        if length rows = length data \<and> length cols = length data
           \<and> list_all (\<lambda>r. r < m) rows \<and> list_all (\<lambda>c. c < n) cols
        then Inr \<lparr>nrows = m, ncols = n, elems = zip rows (zip cols data)\<rparr>
        else Inl ValueError)"

text \<open>\<open>csr_matrix((data, (rows, cols)))\<close> with no shape: the shape is the largest index
  plus one in each direction; scipy raises \<open>ValueError\<close> when the index arrays are empty.\<close>

definition csr_matrix_infer :: "cval list \<Rightarrow> nat list \<times> nat list \<Rightarrow> error + smat" where
  "csr_matrix_infer data ij =
     (case ij of (rows, cols) \<Rightarrow>
        if rows = [] \<or> cols = [] then Inl ValueError
        else csr_matrix data ij (fold max rows 0 + 1, fold max cols 0 + 1))"

definition transpose_smat :: "smat \<Rightarrow> smat" where
  "transpose_smat M =
     \<lparr>nrows = ncols M, ncols = nrows M, elems = map (\<lambda>(r, c, v). (c, r, v)) (elems M)\<rparr>"

text \<open>\<open>A * B\<close> on two sparse matrices: every stored entry of \<open>A\<close> meets the stored entries
  of \<open>B\<close> in the row of its column.\<close>

definition mul_smat :: "smat \<Rightarrow> smat \<Rightarrow> error + smat" where
  "mul_smat A B =
     (if ncols A = nrows B
      then Inr \<lparr>nrows = nrows A, ncols = ncols B,
                elems = concat (map (\<lambda>(i, k, a).
                          map (\<lambda>(k', j, b). (i, j, a * b))
                              (filter (\<lambda>(k', j, b). k' = k) (elems B))) (elems A))\<rparr>
      else Inl ValueError)"

definition add_smat :: "smat \<Rightarrow> smat \<Rightarrow> error + smat" where
  "add_smat A B =
     (if nrows A = nrows B \<and> ncols A = ncols B
      then Inr \<lparr>nrows = nrows A, ncols = ncols A, elems = elems A @ elems B\<rparr>
      else Inl ValueError)"

definition neg_smat :: "smat \<Rightarrow> smat" where
  "neg_smat M = M\<lparr>elems := map (\<lambda>(r, c, v). (r, c, - v)) (elems M)\<rparr>"

definition sub_smat :: "smat \<Rightarrow> smat \<Rightarrow> error + smat" where
  "sub_smat A B = add_smat A (neg_smat B)"

definition conj_smat :: "smat \<Rightarrow> smat" where
  "conj_smat M = M\<lparr>elems := map (\<lambda>(r, c, v). (r, c, conj_cval v)) (elems M)\<rparr>"

text \<open>A scalar times a sparse matrix.\<close>

definition scale_smat :: "complex \<Rightarrow> smat \<Rightarrow> smat" where
  "scale_smat z M = M\<lparr>elems := map (\<lambda>(r, c, v). (r, c, Fin z * v)) (elems M)\<rparr>"

text \<open>A sparse matrix times a one-dimensional array: one value for each row.\<close>

definition mul_vec :: "smat \<Rightarrow> complex list \<Rightarrow> error + cval list" where
  "mul_vec M x =
     (if ncols M = length x
      then Inr (map (\<lambda>i. \<Sum>(r, c, v) \<leftarrow> elems M. if r = i then v * Fin (x ! c) else 0)
                    [0..<nrows M])
      else Inl ValueError)"

text \<open>Sequencing of calls that may raise.\<close>

definition bind_err :: "error + 'a \<Rightarrow> ('a \<Rightarrow> error + 'b) \<Rightarrow> error + 'b" where
  "bind_err m f = (case m of Inl e \<Rightarrow> Inl e | Inr x \<Rightarrow> f x)"

section \<open>makeYbus\<close>

text \<open>The columns of the bus and branch tables that \<open>makeYbus\<close> reads, under the names of
  the column constants of \<open>idx_bus\<close> and \<open>idx_brch\<close>. The tables hold finite reals; the bus
  numbers of a branch are used as matrix indices.\<close>

record bus_row =
  BUS_I :: real
  GS :: real
  BS :: real

record branch_row =
  F_BUS :: nat
  T_BUS :: nat
  BR_R :: real
  BR_X :: real
  BR_B :: real
  BR_STATUS :: real
  TAP :: real
  SHIFT :: real

text \<open>The per-branch arrays of \<open>makeYbus\<close>, each element by element as numpy computes it.\<close>

definition Ys_of :: "branch_row list \<Rightarrow> cval list" where
  "Ys_of branch =
     map2 (\<lambda>s z. cdiv (Fin (of_real s)) z)
          (map BR_STATUS branch) (map (\<lambda>b. of_real (BR_R b) + \<i> * of_real (BR_X b)) branch)"

definition Bc_of :: "branch_row list \<Rightarrow> real list" where
  "Bc_of branch = map2 (*) (map BR_STATUS branch) (map BR_B branch)"

definition tap_of :: "branch_row list \<Rightarrow> complex list" where
  "tap_of branch =
     (let tap = map (\<lambda>b. if TAP b \<noteq> 0 then TAP b else 1) branch
      in map2 (\<lambda>t s. of_real t * exp (\<i> * of_real pi / 180 * of_real s))
              tap (map SHIFT branch))"

definition Ytt_of :: "branch_row list \<Rightarrow> cval list" where
  "Ytt_of branch = map2 (\<lambda>y b. y + Fin (\<i> * of_real b / 2)) (Ys_of branch) (Bc_of branch)"

definition Yff_of :: "branch_row list \<Rightarrow> cval list" where
  "Yff_of branch = map2 (\<lambda>y t. cdiv y (t * cnj t)) (Ytt_of branch) (tap_of branch)"

definition Yft_of :: "branch_row list \<Rightarrow> cval list" where
  "Yft_of branch = map2 (\<lambda>y t. cdiv (- y) (cnj t)) (Ys_of branch) (tap_of branch)"

definition Ytf_of :: "branch_row list \<Rightarrow> cval list" where
  "Ytf_of branch = map2 (\<lambda>y t. cdiv (- y) t) (Ys_of branch) (tap_of branch)"

definition Ysh_of :: "real \<Rightarrow> bus_row list \<Rightarrow> cval list" where
  "Ysh_of baseMVA bus =
     map (\<lambda>b. cdiv (Fin (of_real (GS b) + \<i> * of_real (BS b))) (of_real baseMVA)) bus"

text \<open>What \<open>makeYbus\<close> writes to \<open>stderr\<close>: the check of the bus numbers against their
  positions only writes a line, it does not stop the function.\<close>

definition bus_order_warning :: "bus_row list \<Rightarrow> string list" where
  "bus_order_warning bus =
     (if list_ex (\<lambda>(b, i). BUS_I b \<noteq> of_nat i) (zip bus [0..<length bus])
      then [''buses must appear in order by bus number'' @ [CHR 0x0A]] else [])"

text \<open>\<open>makeYbus\<close> returns what it wrote to \<open>stderr\<close> and either the exception of scipy or the
  three matrices \<open>(Ybus, Yf, Yt)\<close>.\<close>

definition makeYbus ::
  "real \<Rightarrow> bus_row list \<Rightarrow> branch_row list \<Rightarrow> string list \<times> (error + smat \<times> smat \<times> smat)" where
  "makeYbus baseMVA bus branch =
     (let nb = length bus;
          nl = length branch;
          err = bus_order_warning bus;
          Ytt = Ytt_of branch;
          Yff = Yff_of branch;
          Yft = Yft_of branch;
          Ytf = Ytf_of branch;
          Ysh = Ysh_of baseMVA bus;
          f = map F_BUS branch;
          t = map T_BUS branch
      in (err,
          bind_err (csr_matrix (replicate nl 1) ([0..<nl], f) (nl, nb)) (\<lambda>Cf.
          bind_err (csr_matrix (replicate nl 1) ([0..<nl], t) (nl, nb)) (\<lambda>Ct.
          let i = [0..<nl] @ [0..<nl] in
          bind_err (csr_matrix (Yff @ Yft) (i, f @ t) (nl, nb)) (\<lambda>Yf.
          bind_err (csr_matrix (Ytf @ Ytt) (i, f @ t) (nl, nb)) (\<lambda>Yt.
          bind_err (mul_smat (transpose_smat Cf) Yf) (\<lambda>CfYf.
          bind_err (mul_smat (transpose_smat Ct) Yt) (\<lambda>CtYt.
          bind_err (add_smat CfYf CtYt) (\<lambda>Ybr.
          bind_err (csr_matrix Ysh ([0..<nb], [0..<nb]) (nb, nb)) (\<lambda>Dsh.
          bind_err (add_smat Ybr Dsh) (\<lambda>Ybus.
          Inr (Ybus, Yf, Yt))))))))))))"

section \<open>dSbus_dV\<close>

text \<open>\<open>dSbus_dV(Ybus, V)\<close> for a sparse \<open>Ybus\<close> and a one-dimensional complex array \<open>V\<close>.
  \<open>V / abs(V)\<close> is an element by element division of numpy: a zero entry of \<open>V\<close> gives a
  non-finite value, no exception.\<close>

definition dSbus_dV :: "smat \<Rightarrow> complex list \<Rightarrow> error + smat \<times> smat" where
  "dSbus_dV Ybus V =
     (let ib = [0..<length V] in
      bind_err (mul_vec Ybus V) (\<lambda>I.
      bind_err (csr_matrix_infer (map Fin V) (ib, ib)) (\<lambda>diagV.
      bind_err (csr_matrix_infer I (ib, ib)) (\<lambda>diagIbus.
      bind_err (csr_matrix_infer (map (\<lambda>v. cdiv (Fin v) (of_real (cmod v))) V) (ib, ib)) (\<lambda>diagVnorm.
      bind_err (mul_smat Ybus diagVnorm) (\<lambda>YVn.
      bind_err (mul_smat diagV (conj_smat YVn)) (\<lambda>A.
      bind_err (mul_smat (conj_smat diagIbus) diagVnorm) (\<lambda>B.
      bind_err (add_smat A B) (\<lambda>dS_dVm.
      bind_err (mul_smat Ybus diagV) (\<lambda>YV.
      bind_err (sub_smat diagIbus YV) (\<lambda>D.
      bind_err (mul_smat (scale_smat \<i> diagV) (conj_smat D)) (\<lambda>dS_dVa.
      Inr (dS_dVm, dS_dVa)))))))))))))"

section \<open>Reading the results\<close>

text \<open>The three matrices of a call of \<open>makeYbus\<close> that returned, and the first of
  \<open>dSbus_dV\<close>; \<open>raised\<close> holds of an outcome that is an exception.\<close>

definition raised :: "error + 'a \<Rightarrow> bool" where
  "raised r = (case r of Inl e \<Rightarrow> True | Inr x \<Rightarrow> False)"

definition Ybus_ret :: "string list \<times> (error + smat \<times> smat \<times> smat) \<Rightarrow> smat" where
  "Ybus_ret r = fst (projr (snd r))"

definition Yf_ret :: "string list \<times> (error + smat \<times> smat \<times> smat) \<Rightarrow> smat" where
  "Yf_ret r = fst (snd (projr (snd r)))"

definition Yt_ret :: "string list \<times> (error + smat \<times> smat \<times> smat) \<Rightarrow> smat" where
  "Yt_ret r = snd (snd (projr (snd r)))"

definition dS_dVm_ret :: "error + smat \<times> smat \<Rightarrow> smat" where
  "dS_dVm_ret r = fst (projr r)"

section \<open>Well-formed inputs\<close>

text \<open>Every branch names two buses of the bus table.\<close>

definition in_range :: "bus_row list \<Rightarrow> branch_row list \<Rightarrow> bool" where
  "in_range bus branch = list_all (\<lambda>b. F_BUS b < length bus \<and> T_BUS b < length bus) branch"

text \<open>The invariant of a scipy matrix: every stored entry lies within the shape.\<close>

definition valid_smat :: "smat \<Rightarrow> bool" where
  "valid_smat M = list_all (\<lambda>(r, c, v). r < nrows M \<and> c < ncols M) (elems M)"

text \<open>A matrix of complex numbers: no stored entry is non-finite. Its entries as complex
  numbers are \<open>dense M\<close>.\<close>

definition finite_smat :: "smat \<Rightarrow> bool" where
  "finite_smat M = list_all (\<lambda>(r, c, v). v \<noteq> NonFin) (elems M)"

definition dense :: "smat \<Rightarrow> nat \<Rightarrow> nat \<Rightarrow> complex" where
  "dense M i j = (case entry M i j of Fin z \<Rightarrow> z | NonFin \<Rightarrow> 0)"

section \<open>The terms of one branch\<close>

text \<open>The admittance terms of a single branch, as scalars.\<close>

definition tap1 :: "branch_row \<Rightarrow> complex" where
  "tap1 b = of_real (if TAP b \<noteq> 0 then TAP b else 1)
              * exp (\<i> * of_real pi / 180 * of_real (SHIFT b))"

definition Ys1 :: "branch_row \<Rightarrow> cval" where
  "Ys1 b = cdiv (Fin (of_real (BR_STATUS b))) (of_real (BR_R b) + \<i> * of_real (BR_X b))"

definition Ytt1 :: "branch_row \<Rightarrow> cval" where
  "Ytt1 b = Ys1 b + Fin (\<i> * of_real (BR_STATUS b * BR_B b) / 2)"

definition Yff1 :: "branch_row \<Rightarrow> cval" where
  "Yff1 b = cdiv (Ytt1 b) (tap1 b * cnj (tap1 b))"

definition Yft1 :: "branch_row \<Rightarrow> cval" where
  "Yft1 b = cdiv (- Ys1 b) (cnj (tap1 b))"

definition Ytf1 :: "branch_row \<Rightarrow> cval" where
  "Ytf1 b = cdiv (- Ys1 b) (tap1 b)"

text \<open>What one branch adds to the entry \<open>(i, j)\<close> of \<open>Ybus\<close>: its four terms at
  (from, from), (from, to), (to, from) and (to, to).\<close>

definition branch_contrib :: "branch_row \<Rightarrow> nat \<Rightarrow> nat \<Rightarrow> cval" where
  "branch_contrib b i j =
     (if F_BUS b = i \<and> F_BUS b = j then Yff1 b else 0)
   + (if F_BUS b = i \<and> T_BUS b = j then Yft1 b else 0)
   + (if T_BUS b = i \<and> F_BUS b = j then Ytf1 b else 0)
   + (if T_BUS b = i \<and> T_BUS b = j then Ytt1 b else 0)"

text \<open>The entries of the three matrices in closed form.\<close>

definition Yf_entry :: "branch_row list \<Rightarrow> nat \<Rightarrow> nat \<Rightarrow> cval" where
  "Yf_entry branch k j =
     (if k < length branch
      then (if F_BUS (branch ! k) = j then Yff_of branch ! k else 0)
         + (if T_BUS (branch ! k) = j then Yft_of branch ! k else 0)
      else 0)"

definition Yt_entry :: "branch_row list \<Rightarrow> nat \<Rightarrow> nat \<Rightarrow> cval" where
  "Yt_entry branch k j =
     (if k < length branch
      then (if F_BUS (branch ! k) = j then Ytf_of branch ! k else 0)
         + (if T_BUS (branch ! k) = j then Ytt_of branch ! k else 0)
      else 0)"

definition Ybus_entry :: "real \<Rightarrow> bus_row list \<Rightarrow> branch_row list \<Rightarrow> nat \<Rightarrow> nat \<Rightarrow> cval" where
  "Ybus_entry baseMVA bus branch i j =
     (\<Sum>k<length branch. if F_BUS (branch ! k) = i then Yf_entry branch k j else 0)
   + (\<Sum>k<length branch. if T_BUS (branch ! k) = i then Yt_entry branch k j else 0)
   + (if i = j \<and> i < length bus then Ysh_of baseMVA bus ! i else 0)"

section \<open>Assembly by scatter-add\<close>

text \<open>The second way of the specification to assemble \<open>Ybus\<close>: start from the zero matrix,
  add each branch's four terms \<open>Yff\<close>, \<open>Yft\<close>, \<open>Ytf\<close>, \<open>Ytt\<close> into the entries (from, from),
  (from, to), (to, from), (to, to), then add the shunt admittances on the diagonal. An
  addition into an entry accumulates; it never overwrites.\<close>

definition scatter_add :: "(nat \<Rightarrow> nat \<Rightarrow> cval) \<Rightarrow> nat \<Rightarrow> nat \<Rightarrow> cval \<Rightarrow> nat \<Rightarrow> nat \<Rightarrow> cval" where
  "scatter_add Y r c v = Y(r := (Y r)(c := Y r c + v))"

definition Ybus_scatter :: "real \<Rightarrow> bus_row list \<Rightarrow> branch_row list \<Rightarrow> nat \<Rightarrow> nat \<Rightarrow> cval" where
  "Ybus_scatter baseMVA bus branch =
     (let Ytt = Ytt_of branch; Yff = Yff_of branch; Yft = Yft_of branch; Ytf = Ytf_of branch;
          Ysh = Ysh_of baseMVA bus;
          f = map F_BUS branch; t = map T_BUS branch;
          Y = fold (\<lambda>k Y. scatter_add (scatter_add (scatter_add (scatter_add Y
                       (f ! k) (f ! k) (Yff ! k)) (f ! k) (t ! k) (Yft ! k))
                       (t ! k) (f ! k) (Ytf ! k)) (t ! k) (t ! k) (Ytt ! k))
                   [0..<length branch] (\<lambda>i j. 0)
      in fold (\<lambda>i Y. scatter_add Y i i (Ysh ! i)) [0..<length bus] Y)"

section \<open>The derivative formulas on dense matrices\<close>

text \<open>The formulas of the specification for \<open>dSbus_dV\<close>, on \<open>n \<times> n\<close> matrices of complex
  numbers given by their entries: \<open>diag(x)\<close>, the matrix product, the matrix-vector product,
  conjugation, sum, difference and multiplication by a scalar.\<close>

type_synonym cmat = "nat \<Rightarrow> nat \<Rightarrow> complex"

definition mat_diag :: "(nat \<Rightarrow> complex) \<Rightarrow> cmat" where
  "mat_diag x = (\<lambda>i j. if i = j then x i else 0)"

definition mat_mul :: "nat \<Rightarrow> cmat \<Rightarrow> cmat \<Rightarrow> cmat" where
  "mat_mul n A B = (\<lambda>i j. \<Sum>k<n. A i k * B k j)"

definition mat_vec :: "nat \<Rightarrow> cmat \<Rightarrow> (nat \<Rightarrow> complex) \<Rightarrow> nat \<Rightarrow> complex" where
  "mat_vec n A x = (\<lambda>i. \<Sum>k<n. A i k * x k)"

definition mat_conj :: "cmat \<Rightarrow> cmat" where
  "mat_conj A = (\<lambda>i j. cnj (A i j))"

definition mat_add :: "cmat \<Rightarrow> cmat \<Rightarrow> cmat" where
  "mat_add A B = (\<lambda>i j. A i j + B i j)"

definition mat_sub :: "cmat \<Rightarrow> cmat \<Rightarrow> cmat" where
  "mat_sub A B = (\<lambda>i j. A i j - B i j)"

definition mat_scale :: "complex \<Rightarrow> cmat \<Rightarrow> cmat" where
  "mat_scale z A = (\<lambda>i j. z * A i j)"

definition spec_dS_dVm :: "nat \<Rightarrow> cmat \<Rightarrow> (nat \<Rightarrow> complex) \<Rightarrow> cmat" where
  "spec_dS_dVm n Y V =
     (let diagV = mat_diag V;
          diagI = mat_diag (mat_vec n Y V);
          diagVnorm = mat_diag (\<lambda>i. V i / of_real (cmod (V i)))
      in mat_add (mat_mul n diagV (mat_conj (mat_mul n Y diagVnorm)))
                 (mat_mul n (mat_conj diagI) diagVnorm))"

definition spec_dS_dVa :: "nat \<Rightarrow> cmat \<Rightarrow> (nat \<Rightarrow> complex) \<Rightarrow> cmat" where
  "spec_dS_dVa n Y V =
     (let diagV = mat_diag V;
          diagI = mat_diag (mat_vec n Y V)
      in mat_scale \<i> (mat_mul n diagV (mat_conj (mat_sub diagI (mat_mul n Y diagV)))))"

text \<open>Names for two arrays of \<open>dSbus_dV\<close>: \<open>V / abs(V)\<close> and the entries of \<open>Ybus * V\<close>.\<close>

definition Vnorm :: "complex list \<Rightarrow> cval list" where
  "Vnorm V = map (\<lambda>v. cdiv (Fin v) (of_real (cmod v))) V"

definition Ibus :: "smat \<Rightarrow> complex list \<Rightarrow> nat \<Rightarrow> cval" where
  "Ibus Ybus V i = (\<Sum>k<length V. entry Ybus i k * Fin (V ! k))"

section \<open>Example networks\<close>

text \<open>Two and three buses without shunts, the three numbered 0, 2, 1; a line from bus 0 to
  bus 1 with resistance 1, in service; the same line with \<open>R = X = 0\<close>, in service and out
  of service; a \<open>1 \<times> 1\<close> and a full \<open>2 \<times> 2\<close> admittance matrix.\<close>

definition bus_at :: "real \<Rightarrow> bus_row" where
  "bus_at i = \<lparr>BUS_I = i, GS = 0, BS = 0\<rparr>"

definition ex_bus2 :: "bus_row list" where
  "ex_bus2 = [bus_at 0, bus_at 1]"

definition ex_bus021 :: "bus_row list" where
  "ex_bus021 = [bus_at 0, bus_at 2, bus_at 1]"

definition ex_line :: branch_row where
  "ex_line = \<lparr>F_BUS = 0, T_BUS = 1, BR_R = 1, BR_X = 0, BR_B = 0, BR_STATUS = 1,
              TAP = 0, SHIFT = 0\<rparr>"

definition ex_short :: branch_row where
  "ex_short = ex_line\<lparr>BR_R := 0\<rparr>"

definition ex_short_off :: branch_row where
  "ex_short_off = ex_line\<lparr>BR_R := 0, BR_STATUS := 0\<rparr>"

definition ex_line_off :: branch_row where
  "ex_line_off = ex_line\<lparr>BR_STATUS := 0\<rparr>"

definition ex_Y1 :: smat where
  "ex_Y1 = \<lparr>nrows = 1, ncols = 1, elems = [(0, 0, Fin 1)]\<rparr>"

definition ex_Y2 :: smat where
  "ex_Y2 = \<lparr>nrows = 2, ncols = 2,
            elems = [(0, 0, Fin 1), (0, 1, Fin 2), (1, 0, Fin 3), (1, 1, Fin 4)]\<rparr>"

section \<open>Arithmetic of array values\<close>

lemma NonFin_add [simp]: "NonFin + x = NonFin" "x + NonFin = NonFin"
  by (cases x; simp)+

lemma NonFin_mult [simp]: "NonFin * x = NonFin" "x * NonFin = NonFin"
  by (cases x; simp)+

lemma Fin_zero: "Fin 0 = 0"
  by (simp add: zero_cval_def)

lemma zero_mult_Fin [simp]: "0 * Fin z = 0" "Fin z * 0 = 0"
  by (simp_all add: zero_cval_def)

lemma NonFin_not_zero [simp]: "NonFin \<noteq> 0" "0 \<noteq> NonFin"
  by (simp_all add: zero_cval_def)

lemma cval_distrib: "(a + b) * c = a * c + b * (c::cval)"
  by (cases a; cases b; cases c) (simp_all add: algebra_simps)

lemma cval_distrib_left: "c * (a + b) = c * a + c * (b::cval)"
  by (cases a; cases b; cases c) (simp_all add: algebra_simps)

lemma conj_add: "conj_cval (a + b) = conj_cval a + conj_cval b"
  by (cases a; cases b) simp_all

lemma conj_zero [simp]: "conj_cval 0 = 0"
  by (simp add: zero_cval_def)

lemma uminus_add_cval: "- (a + b) = - a + - (b::cval)"
  by (cases a; cases b) simp_all

lemma uminus_zero_cval [simp]: "- (0::cval) = 0"
  by (simp add: zero_cval_def)

lemma cdiv_zero [simp]: "d \<noteq> 0 \<Longrightarrow> cdiv 0 d = 0"
  by (simp add: zero_cval_def)

lemma cdiv_one [simp]: "cdiv x 1 = x"
  by (cases x) simp_all

lemma sum_Fin: "(\<Sum>k\<in>S. Fin (g k)) = Fin (\<Sum>k\<in>S. g k)"
  by (induction S rule: infinite_finite_induct) (simp_all add: Fin_zero)

lemma sum_list_NonFin: "NonFin \<in> set xs \<Longrightarrow> sum_list xs = NonFin"
  by (induction xs) auto

section \<open>Entries of sparse matrices\<close>

lemma entry_alt:
  "entry M i j = (\<Sum>e \<leftarrow> elems M. if fst e = i \<and> fst (snd e) = j then snd (snd e) else 0)"
  by (simp add: entry_def case_prod_unfold)

lemma sum_list_zip3:
  assumes "length rows = n" "length cols = n" "length data = n"
  shows "sum_list (map g (zip rows (zip cols data))) = (\<Sum>k<n. g (rows ! k, cols ! k, data ! k))"
proof -
  have "sum_list (map g (zip rows (zip cols data)))
      = (\<Sum>k = 0..<n. map g (zip rows (zip cols data)) ! k)"
    using assms by (simp add: sum_list_sum_nth)
  also have "\<dots> = (\<Sum>k = 0..<n. g (rows ! k, cols ! k, data ! k))"
    using assms by (intro sum.cong) simp_all
  finally show ?thesis by (simp add: atLeast0LessThan)
qed

lemma sum_diag_elems:
  assumes "length d = n"
  shows "sum_list (map g (zip [0..<n] (zip [0..<n] d))) = (\<Sum>k<n. g (k, k, d ! k))"
  unfolding sum_list_zip3[of "[0..<n]" n "[0..<n]" d g, OF _ _ assms, simplified]
  by (intro sum.cong) simp_all

lemma entry_csr:
  assumes "csr_matrix data (rows, cols) shape = Inr M"
  shows "entry M i j = (\<Sum>k<length data. if rows ! k = i \<and> cols ! k = j then data ! k else 0)"
proof -
  have l: "length rows = length data" "length cols = length data"
    and e: "elems M = zip rows (zip cols data)"
    using assms by (auto simp: csr_matrix_def split: if_splits prod.splits)
  show ?thesis
    by (simp add: entry_alt e sum_list_zip3[OF l refl] cong: if_cong)
qed

lemma entry_diag:
  assumes "csr_matrix d ([0..<n], [0..<n]) shape = Inr M"
  shows "entry M i j = (if i = j \<and> i < n then d ! i else 0)"
proof -
  have n: "length d = n"
    using assms by (auto simp: csr_matrix_def split: if_splits prod.splits)
  have "entry M i j = (\<Sum>k<n. if k = i \<and> k = j then d ! k else 0)"
    unfolding entry_csr[OF assms] n by (intro sum.cong) auto
  also have "\<dots> = (\<Sum>k<n. if k = i then (if i = j then d ! i else 0) else 0)"
    by (intro sum.cong) auto
  also have "\<dots> = (if i = j \<and> i < n then d ! i else 0)"
    by simp
  finally show ?thesis .
qed

lemma entry_add:
  assumes "add_smat A B = Inr C"
  shows "entry C i j = entry A i j + entry B i j"
  using assms by (auto simp: add_smat_def entry_alt split: if_splits)

lemma entry_conj: "entry (conj_smat M) i j = conj_cval (entry M i j)"
proof -
  have "sum_list (map (\<lambda>e. if fst e = i \<and> fst (snd e) = j then conj_cval (snd (snd e)) else 0) xs)
      = conj_cval (sum_list (map (\<lambda>e. if fst e = i \<and> fst (snd e) = j then snd (snd e) else 0) xs))"
    for xs
    by (induction xs) (simp_all add: conj_add)
  then show ?thesis
    by (simp add: entry_alt conj_smat_def comp_def case_prod_unfold cong: if_cong)
qed

lemma entry_neg: "entry (neg_smat M) i j = - entry M i j"
proof -
  have "sum_list (map (\<lambda>e. if fst e = i \<and> fst (snd e) = j then - snd (snd e) else 0) xs)
      = - (sum_list (map (\<lambda>e. if fst e = i \<and> fst (snd e) = j then snd (snd e) else 0) xs))"
    for xs :: "(nat \<times> nat \<times> cval) list"
    by (induction xs) (simp_all add: uminus_add_cval)
  then show ?thesis
    by (simp add: entry_alt neg_smat_def comp_def case_prod_unfold cong: if_cong)
qed

lemma entry_sub:
  assumes "sub_smat A B = Inr C"
  shows "entry C i j = entry A i j + - entry B i j"
  using entry_add[OF assms[unfolded sub_smat_def]] by (simp add: entry_neg)

text \<open>A product: each stored entry of the left factor meets the stored entries of the right
  factor in the row of its column.\<close>

lemma mul_elems_sum:
  fixes as bs :: "(nat \<times> nat \<times> cval) list"
  shows "(\<Sum>e \<leftarrow> concat (map (\<lambda>x. map (\<lambda>e. (fst x, fst (snd e), snd (snd x) * snd (snd e)))
                                 (filter (\<lambda>e. fst e = fst (snd x)) bs)) as).
        if fst e = i \<and> fst (snd e) = j then snd (snd e) else 0)
     = (\<Sum>x \<leftarrow> as. if fst x = i
          then (\<Sum>e \<leftarrow> bs. if fst e = fst (snd x) \<and> fst (snd e) = j
                            then snd (snd x) * snd (snd e) else 0)
          else 0)"
proof (induction as)
  case Nil
  show ?case by simp
next
  case (Cons x as)
  have "(\<Sum>e\<leftarrow>filter (\<lambda>e. fst e = k) bs. if i0 = i \<and> fst (snd e) = j then a * snd (snd e) else 0)
      = (if i0 = i then (\<Sum>e \<leftarrow> bs. if fst e = k \<and> fst (snd e) = j then a * snd (snd e) else 0)
         else 0)"
    for i0 k and a :: cval
    by (induction bs) auto
  with Cons show ?case
    by (simp add: comp_def cong: if_cong)
qed

lemma entry_mul:
  assumes "mul_smat A B = Inr C"
  shows "entry C i j =
    (\<Sum>x \<leftarrow> elems A. if fst x = i
          then (\<Sum>e \<leftarrow> elems B. if fst e = fst (snd x) \<and> fst (snd e) = j
                                 then snd (snd x) * snd (snd e) else 0)
          else 0)"
proof -
  have "elems C = concat (map (\<lambda>x. map (\<lambda>e. (fst x, fst (snd e), snd (snd x) * snd (snd e)))
                                       (filter (\<lambda>e. fst e = fst (snd x)) (elems B))) (elems A))"
    using assms by (auto simp: mul_smat_def case_prod_unfold split: if_splits)
  then show ?thesis
    by (simp only: entry_alt mul_elems_sum)
qed

lemma entry_mul_diag_right:
  assumes P: "mul_smat X D = Inr P"
    and D: "elems D = zip [0..<n] (zip [0..<n] d)" and d: "length d = n"
  shows "entry P i j =
     (if j < n then (\<Sum>x \<leftarrow> elems X. if fst x = i \<and> fst (snd x) = j then snd (snd x) * d ! j else 0)
      else 0)"
proof -
  have inner: "(\<Sum>e \<leftarrow> zip [0..<n] (zip [0..<n] d).
                   if fst e = c \<and> fst (snd e) = j then v * snd (snd e) else 0)
       = (if c = j \<and> j < n then v * d ! j else 0)" for c v
  proof -
    have "(\<Sum>e \<leftarrow> zip [0..<n] (zip [0..<n] d).
             if fst e = c \<and> fst (snd e) = j then v * snd (snd e) else 0)
        = (\<Sum>k<n. if k = j then (if c = j then v * d ! j else 0) else 0)"
      unfolding sum_diag_elems[OF d] by (intro sum.cong) auto
    then show ?thesis by simp
  qed
  show ?thesis
    unfolding entry_mul[OF P] D inner
    by (auto intro!: arg_cong[where f=sum_list] map_cong cong: if_cong)
qed

lemma entry_mul_diag_left:
  assumes P: "mul_smat D X = Inr P"
    and D: "elems D = zip [0..<n] (zip [0..<n] d)" and d: "length d = n"
  shows "entry P i j =
     (if i < n then (\<Sum>e \<leftarrow> elems X. if fst e = i \<and> fst (snd e) = j then d ! i * snd (snd e) else 0)
      else 0)"
proof -
  have "entry P i j = (\<Sum>k<n. if k = i
          then (\<Sum>e \<leftarrow> elems X. if fst e = i \<and> fst (snd e) = j then d ! i * snd (snd e) else 0)
          else 0)"
    unfolding entry_mul[OF P] D sum_diag_elems[OF d]
    by (intro sum.cong) (auto cong: if_cong)
  then show ?thesis by simp
qed

lemma sum_list_mult_Fin_right:
  "(\<Sum>x \<leftarrow> xs. if P x then g x * Fin z else 0) = (\<Sum>x \<leftarrow> xs. if P x then g x else 0) * Fin z"
  by (induction xs) (simp_all add: cval_distrib)

lemma sum_list_mult_Fin_left:
  "(\<Sum>x \<leftarrow> xs. if P x then Fin z * g x else 0) = Fin z * (\<Sum>x \<leftarrow> xs. if P x then g x else 0)"
  by (induction xs) (simp_all add: cval_distrib_left)

lemma entry_mul_diag_left_Fin:
  assumes P: "mul_smat D X = Inr P"
    and D: "elems D = zip [0..<n] (zip [0..<n] (map Fin zs))" and d: "length zs = n"
  shows "entry P i j = (if i < n then Fin (zs ! i) * entry X i j else 0)"
proof -
  have l: "length (map Fin zs) = n" using d by simp
  have "(\<Sum>e \<leftarrow> elems X. if fst e = i \<and> fst (snd e) = j then map Fin zs ! i * snd (snd e) else 0)
      = Fin (zs ! i) * entry X i j" if "i < n"
    unfolding entry_alt sum_list_mult_Fin_left[symmetric]
    using d that by (simp cong: if_cong)
  then show ?thesis
    by (simp add: entry_mul_diag_left[OF P D l])
qed

lemma entry_mul_diag_right_Fin:
  assumes P: "mul_smat X D = Inr P"
    and D: "elems D = zip [0..<n] (zip [0..<n] (map Fin zs))" and d: "length zs = n"
  shows "entry P i j = (if j < n then entry X i j * Fin (zs ! j) else 0)"
proof -
  have l: "length (map Fin zs) = n" using d by simp
  have "(\<Sum>x \<leftarrow> elems X. if fst x = i \<and> fst (snd x) = j then snd (snd x) * map Fin zs ! j else 0)
      = entry X i j * Fin (zs ! j)" if "j < n"
    unfolding entry_alt sum_list_mult_Fin_right[symmetric]
    using d that by (simp cong: if_cong)
  then show ?thesis
    by (simp add: entry_mul_diag_right[OF P D l])
qed

lemma fold_max_upt: "0 < n \<Longrightarrow> Suc (fold max [0..<n] 0) = n"
proof (induction n)
  case 0
  then show ?case by simp
next
  case (Suc n)
  show ?case
  proof (cases n)
    case 0
    then show ?thesis by simp
  next
    case (Suc m)
    with Suc.IH have "Suc (fold max [0..<n] 0) = n" by simp
    then show ?thesis by simp
  qed
qed

lemma csr_infer_diag:
  assumes "length d = n" "0 < n"
  shows "csr_matrix_infer d ([0..<n], [0..<n])
           = Inr \<lparr>nrows = n, ncols = n, elems = zip [0..<n] (zip [0..<n] d)\<rparr>"
  using assms
  by (simp add: csr_matrix_infer_def csr_matrix_def fold_max_upt list_all_iff)

lemma finite_entry:
  assumes "finite_smat M"
  shows "entry M i j = Fin (dense M i j)"
proof -
  have "\<exists>z. (\<Sum>e \<leftarrow> es. if fst e = i \<and> fst (snd e) = j then snd (snd e) else 0) = Fin z"
    if "list_all (\<lambda>e. snd (snd e) \<noteq> NonFin) es" for es :: "(nat \<times> nat \<times> cval) list"
    using that
  proof (induction es)
    case Nil
    show ?case by (simp add: zero_cval_def)
  next
    case (Cons e es)
    then obtain z where z: "(\<Sum>e \<leftarrow> es. if fst e = i \<and> fst (snd e) = j then snd (snd e) else 0) = Fin z"
      by auto
    obtain w where w: "snd (snd e) = Fin w"
      using Cons.prems by (cases "snd (snd e)") auto
    show ?case by (simp add: z w Fin_zero[symmetric])
  qed
  moreover have "list_all (\<lambda>e. snd (snd e) \<noteq> NonFin) (elems M)"
    using assms by (simp add: finite_smat_def case_prod_unfold)
  ultimately obtain z where "entry M i j = Fin z"
    unfolding entry_alt by blast
  then show ?thesis by (simp add: dense_def)
qed


section \<open>The arrays of makeYbus\<close>

lemma length_Ys [simp]: "length (Ys_of branch) = length branch"
  by (simp add: Ys_of_def)

lemma length_Bc [simp]: "length (Bc_of branch) = length branch"
  by (simp add: Bc_of_def)

lemma length_tap [simp]: "length (tap_of branch) = length branch"
  by (simp add: tap_of_def)

lemma length_Ytt [simp]: "length (Ytt_of branch) = length branch"
  by (simp add: Ytt_of_def)

lemma length_Yff [simp]: "length (Yff_of branch) = length branch"
  by (simp add: Yff_of_def)

lemma length_Yft [simp]: "length (Yft_of branch) = length branch"
  by (simp add: Yft_of_def)

lemma length_Ytf [simp]: "length (Ytf_of branch) = length branch"
  by (simp add: Ytf_of_def)

lemma length_Ysh [simp]: "length (Ysh_of baseMVA bus) = length bus"
  by (simp add: Ysh_of_def)

text \<open>Each array holds, at the position of a branch, the scalar term of that branch.\<close>

lemma Ys_nth: "k < length branch \<Longrightarrow> Ys_of branch ! k = Ys1 (branch ! k)"
  by (simp add: Ys_of_def Ys1_def)

lemma Bc_nth: "k < length branch \<Longrightarrow> Bc_of branch ! k = BR_STATUS (branch ! k) * BR_B (branch ! k)"
  by (simp add: Bc_of_def)

lemma tap_nth: "k < length branch \<Longrightarrow> tap_of branch ! k = tap1 (branch ! k)"
  by (simp add: tap_of_def tap1_def)

lemma Ytt_nth: "k < length branch \<Longrightarrow> Ytt_of branch ! k = Ytt1 (branch ! k)"
  by (simp add: Ytt_of_def Ytt1_def Ys_nth Bc_nth)

lemma Yff_nth: "k < length branch \<Longrightarrow> Yff_of branch ! k = Yff1 (branch ! k)"
  by (simp add: Yff_of_def Yff1_def Ytt_nth tap_nth)

lemma Yft_nth: "k < length branch \<Longrightarrow> Yft_of branch ! k = Yft1 (branch ! k)"
  by (simp add: Yft_of_def Yft1_def Ys_nth tap_nth)

lemma Ytf_nth: "k < length branch \<Longrightarrow> Ytf_of branch ! k = Ytf1 (branch ! k)"
  by (simp add: Ytf_of_def Ytf1_def Ys_nth tap_nth)

lemma tap1_nonzero: "tap1 b \<noteq> 0"
  by (simp add: tap1_def)

lemma tap1_no_shift: "SHIFT b = 0 \<Longrightarrow> tap1 b = of_real (if TAP b \<noteq> 0 then TAP b else 1)"
  by (simp add: tap1_def)

section \<open>The matrices of makeYbus\<close>

lemma entry_two_per_row:
  assumes M: "csr_matrix (xs @ ys) ([0..<n] @ [0..<n], f @ t) shape = Inr M"
    and l: "length xs = n" "length f = n"
  shows "entry M k j =
     (if k < n then (if f ! k = j then xs ! k else 0) + (if t ! k = j then ys ! k else 0) else 0)"
proof -
  have l2: "length ys = n" "length t = n"
    using M l by (auto simp: csr_matrix_def split: if_splits prod.splits)
  have e: "elems M = zip [0..<n] (zip f xs) @ zip [0..<n] (zip t ys)"
    using M l l2 by (auto simp: csr_matrix_def split: if_splits prod.splits)
  have one: "(\<Sum>e \<leftarrow> zip [0..<n] (zip c v).
                 if fst e = k \<and> fst (snd e) = j then snd (snd e) else 0)
             = (if k < n then (if c ! k = j then v ! k else 0) else 0)"
    if "length c = n" "length v = n" for c :: "nat list" and v :: "cval list"
  proof -
    have "(\<Sum>e \<leftarrow> zip [0..<n] (zip c v).
                 if fst e = k \<and> fst (snd e) = j then snd (snd e) else 0)
        = (\<Sum>m<n. if m = k then (if c ! k = j then v ! k else 0) else 0)"
      unfolding sum_list_zip3[of "[0..<n]" n c v, OF _ that, simplified]
      by (intro sum.cong) auto
    then show ?thesis by simp
  qed
  show ?thesis
    unfolding entry_alt e
    by (simp add: one l l2)
qed

lemma entry_incidence_mul:
  assumes C: "csr_matrix (replicate n 1) ([0..<n], f) shape = Inr C"
    and P: "mul_smat (transpose_smat C) Y = Inr P"
  shows "entry P i j = (\<Sum>k<n. if f ! k = i then entry Y k j else 0)"
proof -
  have l: "length f = n"
    and e: "elems C = zip [0..<n] (zip f (replicate n 1))"
    using C by (auto simp: csr_matrix_def split: if_splits prod.splits)
  have "entry P i j = (\<Sum>x \<leftarrow> zip [0..<n] (zip f (replicate n 1)). if fst (snd x) = i
          then (\<Sum>e \<leftarrow> elems Y. if fst e = fst x \<and> fst (snd e) = j
                                 then snd (snd x) * snd (snd e) else 0)
          else 0)"
    unfolding entry_mul[OF P]
    by (simp add: transpose_smat_def e comp_def case_prod_unfold cong: if_cong)
  also have "\<dots> = (\<Sum>k<n. if f ! k = i
          then (\<Sum>e \<leftarrow> elems Y. if fst e = k \<and> fst (snd e) = j then 1 * snd (snd e) else 0)
          else 0)"
    by (subst sum_list_zip3[of _ n]) (auto simp: l intro!: sum.cong cong: if_cong)
  also have "\<dots> = (\<Sum>k<n. if f ! k = i then entry Y k j else 0)"
    by (simp add: entry_alt cong: if_cong)
  finally show ?thesis .
qed

lemma makeYbus_in_range:
  assumes "in_range bus branch"
  shows "\<exists>Ybus Yf Yt. snd (makeYbus baseMVA bus branch) = Inr (Ybus, Yf, Yt)
           \<and> (\<forall>i j. entry Yf i j = Yf_entry branch i j)
           \<and> (\<forall>i j. entry Yt i j = Yt_entry branch i j)
           \<and> (\<forall>i j. entry Ybus i j = Ybus_entry baseMVA bus branch i j)"
proof -
  define nl where "nl = length branch"
  define nb where "nb = length bus"
  define f where "f = map F_BUS branch"
  define t where "t = map T_BUS branch"
  have rng: "list_all (\<lambda>c. c < nb) f" "list_all (\<lambda>c. c < nb) t"
    "list_all (\<lambda>r. r < nl) [0..<nl]" "list_all (\<lambda>r. r < nb) [0..<nb]"
    using assms by (auto simp: in_range_def f_def t_def nb_def list_all_iff)
  have len: "length f = nl" "length t = nl"
    "length (Yff_of branch) = nl" "length (Ytf_of branch) = nl"
    by (simp_all add: f_def t_def nl_def)
  obtain Cf where Cf: "csr_matrix (replicate nl 1) ([0..<nl], f) (nl, nb) = Inr Cf"
    and Cf_shape: "nrows Cf = nl" "ncols Cf = nb"
    using rng len by (simp add: csr_matrix_def)
  obtain Ct where Ct: "csr_matrix (replicate nl 1) ([0..<nl], t) (nl, nb) = Inr Ct"
    and Ct_shape: "nrows Ct = nl" "ncols Ct = nb"
    using rng len by (simp add: csr_matrix_def)
  obtain Yf where Yf: "csr_matrix (Yff_of branch @ Yft_of branch)
                          ([0..<nl] @ [0..<nl], f @ t) (nl, nb) = Inr Yf"
    and Yf_shape: "nrows Yf = nl" "ncols Yf = nb"
    using rng len by (simp add: csr_matrix_def nl_def)
  obtain Yt where Yt: "csr_matrix (Ytf_of branch @ Ytt_of branch)
                          ([0..<nl] @ [0..<nl], f @ t) (nl, nb) = Inr Yt"
    and Yt_shape: "nrows Yt = nl" "ncols Yt = nb"
    using rng len by (simp add: csr_matrix_def nl_def)
  obtain CfYf where CfYf: "mul_smat (transpose_smat Cf) Yf = Inr CfYf"
    and CfYf_shape: "nrows CfYf = nb" "ncols CfYf = nb"
    by (simp add: mul_smat_def transpose_smat_def Cf_shape Yf_shape)
  obtain CtYt where CtYt: "mul_smat (transpose_smat Ct) Yt = Inr CtYt"
    and CtYt_shape: "nrows CtYt = nb" "ncols CtYt = nb"
    by (simp add: mul_smat_def transpose_smat_def Ct_shape Yt_shape)
  obtain Ybr where Ybr: "add_smat CfYf CtYt = Inr Ybr"
    and Ybr_shape: "nrows Ybr = nb" "ncols Ybr = nb"
    by (simp add: add_smat_def CfYf_shape CtYt_shape)
  obtain Dsh where Dsh: "csr_matrix (Ysh_of baseMVA bus) ([0..<nb], [0..<nb]) (nb, nb) = Inr Dsh"
    and Dsh_shape: "nrows Dsh = nb" "ncols Dsh = nb"
    using rng by (simp add: csr_matrix_def nb_def)
  obtain Ybus where Ybus: "add_smat Ybr Dsh = Inr Ybus"
    by (simp add: add_smat_def Ybr_shape Dsh_shape)
  have ret: "snd (makeYbus baseMVA bus branch) = Inr (Ybus, Yf, Yt)"
    unfolding makeYbus_def Let_def
    by (simp add: bind_err_def Cf Ct Yf Yt CfYf CtYt Ybr Dsh Ybus
        flip: nl_def nb_def f_def t_def)
  have eYf: "entry Yf k j = Yf_entry branch k j" for k j
    unfolding entry_two_per_row[OF Yf len(3) len(1)] Yf_entry_def
    by (auto simp: f_def t_def nl_def)
  have eYt: "entry Yt k j = Yt_entry branch k j" for k j
    unfolding entry_two_per_row[OF Yt len(4) len(1)] Yt_entry_def
    by (auto simp: f_def t_def nl_def)
  have eYbus: "entry Ybus i j = Ybus_entry baseMVA bus branch i j" for i j
    unfolding entry_add[OF Ybus] entry_add[OF Ybr] entry_incidence_mul[OF Cf CfYf]
      entry_incidence_mul[OF Ct CtYt] entry_diag[OF Dsh] eYf eYt Ybus_entry_def
    by (auto simp: f_def t_def nl_def nb_def intro!: sum.cong arg_cong2[where f="(+)"])
  from ret eYf eYt eYbus show ?thesis by blast
qed

text \<open>A branch that names a bus outside the table makes scipy raise.\<close>

lemma makeYbus_out_of_range:
  assumes "\<not> in_range bus branch"
  shows "snd (makeYbus baseMVA bus branch) = Inl ValueError"
proof -
  have "\<not> (list_all (\<lambda>c. c < length bus) (map F_BUS branch)
           \<and> list_all (\<lambda>c. c < length bus) (map T_BUS branch))"
    using assms by (auto simp: in_range_def list_all_iff)
  then show ?thesis
    unfolding makeYbus_def Let_def
    by (auto simp: bind_err_def csr_matrix_def split: sum.splits)
qed

text \<open>The closed forms in terms of the scalar terms of each branch.\<close>

lemma Yf_entry_row:
  "k < length branch \<Longrightarrow> Yf_entry branch k j =
     (if F_BUS (branch ! k) = j then Yff1 (branch ! k) else 0)
   + (if T_BUS (branch ! k) = j then Yft1 (branch ! k) else 0)"
  by (simp add: Yf_entry_def Yff_nth Yft_nth)

lemma Yt_entry_row:
  "k < length branch \<Longrightarrow> Yt_entry branch k j =
     (if F_BUS (branch ! k) = j then Ytf1 (branch ! k) else 0)
   + (if T_BUS (branch ! k) = j then Ytt1 (branch ! k) else 0)"
  by (simp add: Yt_entry_def Ytf_nth Ytt_nth)

lemma branch_contrib_rows:
  assumes "k < length branch"
  shows "(if F_BUS (branch ! k) = i then Yf_entry branch k j else 0)
       + (if T_BUS (branch ! k) = i then Yt_entry branch k j else 0)
       = branch_contrib (branch ! k) i j"
proof (cases "F_BUS (branch ! k) = i")
  case True
  then show ?thesis
    by (cases "T_BUS (branch ! k) = i")
       (simp_all add: Yf_entry_row[OF assms] Yt_entry_row[OF assms] branch_contrib_def add.assoc)
next
  case False
  then show ?thesis
    by (cases "T_BUS (branch ! k) = i")
       (simp_all add: Yf_entry_row[OF assms] Yt_entry_row[OF assms] branch_contrib_def add.assoc)
qed

lemma Ybus_entry_sum:
  "Ybus_entry baseMVA bus branch i j =
     (\<Sum>b \<leftarrow> branch. branch_contrib b i j)
   + (if i = j \<and> i < length bus then Ysh_of baseMVA bus ! i else 0)"
proof -
  have "(\<Sum>k<length branch. if F_BUS (branch ! k) = i then Yf_entry branch k j else 0)
      + (\<Sum>k<length branch. if T_BUS (branch ! k) = i then Yt_entry branch k j else 0)
      = (\<Sum>k<length branch. (if F_BUS (branch ! k) = i then Yf_entry branch k j else 0)
                            + (if T_BUS (branch ! k) = i then Yt_entry branch k j else 0))"
    by (simp only: sum.distrib)
  also have "\<dots> = (\<Sum>k<length branch. branch_contrib (branch ! k) i j)"
    by (intro sum.cong refl branch_contrib_rows) simp
  also have "\<dots> = (\<Sum>b \<leftarrow> branch. branch_contrib b i j)"
    by (simp add: sum_list_sum_nth atLeast0LessThan)
  finally show ?thesis
    by (simp only: Ybus_entry_def)
qed


section \<open>The matrices of dSbus_dV\<close>

lemma row_times_vector:
  fixes es :: "(nat \<times> nat \<times> cval) list"
  assumes "list_all (\<lambda>e. fst (snd e) < n) es"
  shows "(\<Sum>e \<leftarrow> es. if fst e = i then snd (snd e) * Fin (x ! fst (snd e)) else 0)
       = (\<Sum>k<n. (\<Sum>e \<leftarrow> es. if fst e = i \<and> fst (snd e) = k then snd (snd e) else 0)
                    * Fin (x ! k))"
  using assms
proof (induction es)
  case Nil
  show ?case by simp
next
  case (Cons e es)
  have c: "fst (snd e) < n" using Cons.prems by simp
  have "(\<Sum>k<n. (if fst e = i \<and> fst (snd e) = k then snd (snd e) else 0) * Fin (x ! k))
      = (\<Sum>k<n. if k = fst (snd e)
                  then (if fst e = i then snd (snd e) * Fin (x ! fst (snd e)) else 0) else 0)"
    by (intro sum.cong) auto
  also have "\<dots> = (if fst e = i then snd (snd e) * Fin (x ! fst (snd e)) else 0)"
    using c by simp
  finally have first:
    "(\<Sum>k<n. (if fst e = i \<and> fst (snd e) = k then snd (snd e) else 0) * Fin (x ! k))
      = (if fst e = i then snd (snd e) * Fin (x ! fst (snd e)) else 0)" .
  have "(\<Sum>k<n. (\<Sum>e \<leftarrow> e # es. if fst e = i \<and> fst (snd e) = k then snd (snd e) else 0)
                  * Fin (x ! k))
      = (\<Sum>k<n. (if fst e = i \<and> fst (snd e) = k then snd (snd e) else 0) * Fin (x ! k))
      + (\<Sum>k<n. (\<Sum>e \<leftarrow> es. if fst e = i \<and> fst (snd e) = k then snd (snd e) else 0)
                  * Fin (x ! k))"
    by (simp add: cval_distrib sum.distrib)
  with Cons first show ?case by simp
qed

lemma mul_vec_entries:
  assumes "valid_smat M" "ncols M = length x"
  shows "mul_vec M x = Inr (map (\<lambda>i. \<Sum>k<length x. entry M i k * Fin (x ! k)) [0..<nrows M])"
proof -
  have "list_all (\<lambda>e. fst (snd e) < length x) (elems M)"
    using assms by (auto simp: valid_smat_def list_all_iff)
  from row_times_vector[OF this] show ?thesis
    using assms(2) by (simp add: mul_vec_def entry_alt case_prod_unfold)
qed

text \<open>For a valid square \<open>Ybus\<close> and a non-empty \<open>V\<close> of its size, \<open>dSbus_dV\<close> returns two
  square matrices of that size, with these entries.\<close>

lemma dSbus_dV_entries:
  assumes sq: "nrows Ybus = n" "ncols Ybus = n" and V: "length V = n" "0 < n"
    and valid: "valid_smat Ybus"
  shows "\<exists>dVm dVa. dSbus_dV Ybus V = Inr (dVm, dVa)
     \<and> nrows dVm = n \<and> ncols dVm = n \<and> nrows dVa = n \<and> ncols dVa = n
     \<and> (\<forall>i<n. \<forall>j<n. entry dVm i j =
           Fin (V ! i) * conj_cval (\<Sum>x \<leftarrow> elems Ybus. if fst x = i \<and> fst (snd x) = j
                                  then snd (snd x) * Vnorm V ! j else 0)
           + (if i = j then conj_cval (Ibus Ybus V i) * Vnorm V ! i else 0))
     \<and> (\<forall>i<n. \<forall>j<n. entry dVa i j =
           Fin (\<i> * V ! i) * conj_cval ((if i = j then Ibus Ybus V i else 0)
                                     + - (entry Ybus i j * Fin (V ! j))))"
proof -
  define I where "I = map (Ibus Ybus V) [0..<n]"
  define dg where "dg d = \<lparr>nrows = n, ncols = n, elems = zip [0..<n] (zip [0..<n] d)\<rparr>"
    for d :: "cval list"
  have lens: "length (map Fin V) = n" "length I = n" "length (Vnorm V) = n"
    by (simp_all add: V I_def Vnorm_def)
  have I: "mul_vec Ybus V = Inr I"
    using mul_vec_entries[OF valid, of V] sq V by (simp add: I_def Ibus_def[abs_def])
  have diagV: "csr_matrix_infer (map Fin V) ([0..<n], [0..<n]) = Inr (dg (map Fin V))"
    and diagI: "csr_matrix_infer I ([0..<n], [0..<n]) = Inr (dg I)"
    and diagVn: "csr_matrix_infer (Vnorm V) ([0..<n], [0..<n]) = Inr (dg (Vnorm V))"
    using lens V(2) by (simp_all add: csr_infer_diag dg_def)
  have dg_simps: "nrows (dg d) = n" "ncols (dg d) = n"
    "elems (dg d) = zip [0..<n] (zip [0..<n] d)" for d
    by (simp_all add: dg_def)
  obtain YVn where YVn: "mul_smat Ybus (dg (Vnorm V)) = Inr YVn"
    and YVn_s: "nrows YVn = n" "ncols YVn = n"
    by (simp add: mul_smat_def sq dg_simps)
  obtain A where A: "mul_smat (dg (map Fin V)) (conj_smat YVn) = Inr A"
    and A_s: "nrows A = n" "ncols A = n"
    by (simp add: mul_smat_def conj_smat_def YVn_s dg_simps)
  obtain B where B: "mul_smat (conj_smat (dg I)) (dg (Vnorm V)) = Inr B"
    and B_s: "nrows B = n" "ncols B = n"
    by (simp add: mul_smat_def conj_smat_def dg_simps)
  obtain dVm where dVm: "add_smat A B = Inr dVm" and dVm_s: "nrows dVm = n" "ncols dVm = n"
    by (simp add: add_smat_def A_s B_s)
  obtain YV where YV: "mul_smat Ybus (dg (map Fin V)) = Inr YV"
    and YV_s: "nrows YV = n" "ncols YV = n"
    by (simp add: mul_smat_def sq dg_simps)
  obtain D where D: "sub_smat (dg I) YV = Inr D" and D_s: "nrows D = n" "ncols D = n"
    by (simp add: sub_smat_def add_smat_def neg_smat_def YV_s dg_simps)
  obtain dVa where dVa: "mul_smat (scale_smat \<i> (dg (map Fin V))) (conj_smat D) = Inr dVa"
    and dVa_s: "nrows dVa = n" "ncols dVa = n"
    by (simp add: mul_smat_def scale_smat_def conj_smat_def D_s dg_simps)
  have ret: "dSbus_dV Ybus V = Inr (dVm, dVa)"
    unfolding dSbus_dV_def Let_def V(1) Vnorm_def[symmetric]
    by (simp add: bind_err_def I diagV diagI diagVn YVn A B dVm YV D dVa)
  have eYVn: "entry YVn i j = (\<Sum>x \<leftarrow> elems Ybus. if fst x = i \<and> fst (snd x) = j
                                  then snd (snd x) * Vnorm V ! j else 0)" if "j < n" for i j
    using entry_mul_diag_right[OF YVn dg_simps(3) lens(3)] that by simp
  have eA: "entry A i j = Fin (V ! i) * conj_cval (entry YVn i j)" if "i < n" for i j
    using entry_mul_diag_left_Fin[OF A dg_simps(3) V(1), of i j] that
    by (simp add: entry_conj)
  have edgI: "entry (dg I) i j = (if i = j \<and> i < n then Ibus Ybus V i else 0)" for i j
  proof -
    have "csr_matrix I ([0..<n], [0..<n]) (n, n) = Inr (dg I)"
      using lens by (simp add: csr_matrix_def dg_def list_all_iff)
    from entry_diag[OF this] show ?thesis by (auto simp: I_def)
  qed
  have eB: "entry B i j = (if i = j then conj_cval (Ibus Ybus V i) * Vnorm V ! i else 0)"
    if "i < n" "j < n" for i j
  proof -
    have "entry B i j = (\<Sum>x \<leftarrow> elems (conj_smat (dg I)). if fst x = i \<and> fst (snd x) = j
                            then snd (snd x) * Vnorm V ! j else 0)"
      using entry_mul_diag_right[OF B dg_simps(3) lens(3)] that by simp
    also have "\<dots> = (\<Sum>k<n. if k = i \<and> k = j then conj_cval (I ! k) * Vnorm V ! j else 0)"
      unfolding conj_smat_def
      by (simp add: dg_simps comp_def case_prod_unfold sum_diag_elems[OF lens(2)] cong: if_cong)
    also have "\<dots> = (\<Sum>k<n. if k = i
                         then (if i = j then conj_cval (I ! i) * Vnorm V ! j else 0) else 0)"
      by (intro sum.cong) auto
    finally show ?thesis using that by (simp add: I_def)
  qed
  have eYV: "entry YV i j = entry Ybus i j * Fin (V ! j)" if "j < n" for i j
    using entry_mul_diag_right_Fin[OF YV dg_simps(3) V(1), of i j] that
    by simp
  have scale: "elems (scale_smat \<i> (dg (map Fin V)))
                 = zip [0..<n] (zip [0..<n] (map Fin (map (\<lambda>v. \<i> * v) V)))"
    using V(1) by (simp add: scale_smat_def dg_simps zip_map2 case_prod_unfold comp_def)
  have edVa: "entry dVa i j = Fin (\<i> * V ! i) * conj_cval (entry D i j)" if "i < n" for i j
    using entry_mul_diag_left_Fin[OF dVa scale, of i j] that V(1)
    by (simp add: entry_conj)
  show ?thesis
    using ret dVm_s dVa_s
    by (auto simp: entry_add[OF dVm] eA eB eYVn edVa entry_sub[OF D] edgI eYV)
qed


section \<open>The claims\<close>

text \<open>
  C1. For every branch \<open>k\<close>, \<open>makeYbus\<close> computes the four terms of the pi model as
  \<open>Ytt = Ys + j Bc / 2\<close>, \<open>Yff = Ytt / (tap conj(tap))\<close>, \<open>Yft = - Ys / conj(tap)\<close> and
  \<open>Ytf = - Ys / tap\<close>, where \<open>Ys = status / (R + j X)\<close>, \<open>Bc = status B\<close>, and \<open>tap\<close> is the tap
  field of the branch, with 1 in place of a stored zero, times \<open>exp(j shift pi / 180)\<close>.
  These are the values at position \<open>k\<close> of the arrays of \<open>makeYbus\<close>, and the values that
  row \<open>k\<close> of the returned \<open>Yf\<close> and \<open>Yt\<close> holds in the columns of the two buses of the
  branch.
\<close>

theorem pi_model_terms:
  assumes "k < length branch"
  shows "(let b = branch ! k;
              tap = of_real (if TAP b = 0 then 1 else TAP b)
                      * exp (\<i> * of_real (SHIFT b) * of_real pi / 180);
              Ys = cdiv (Fin (of_real (BR_STATUS b))) (Complex (BR_R b) (BR_X b));
              Bc = BR_STATUS b * BR_B b;
              Ytt = Ys + Fin (\<i> * of_real Bc / 2);
              Yff = cdiv Ytt (tap * cnj tap);
              Yft = cdiv (- Ys) (cnj tap);
              Ytf = cdiv (- Ys) tap
          in tap_of branch ! k = tap \<and> Ys_of branch ! k = Ys \<and> Bc_of branch ! k = Bc
           \<and> Ytt_of branch ! k = Ytt \<and> Yff_of branch ! k = Yff
           \<and> Yft_of branch ! k = Yft \<and> Ytf_of branch ! k = Ytf
           \<and> (in_range bus branch \<longrightarrow>
                (\<exists>Ybus Yf Yt. snd (makeYbus baseMVA bus branch) = Inr (Ybus, Yf, Yt)
                   \<and> (\<forall>j. entry Yf k j = (if F_BUS b = j then Yff else 0)
                                        + (if T_BUS b = j then Yft else 0))
                   \<and> (\<forall>j. entry Yt k j = (if F_BUS b = j then Ytf else 0)
                                        + (if T_BUS b = j then Ytt else 0)))))"
proof -
  define b where "b = branch ! k"
  have tap: "tap_of branch ! k = of_real (if TAP b = 0 then 1 else TAP b)
                      * exp (\<i> * of_real (SHIFT b) * of_real pi / 180)"
    using assms by (simp add: tap_of_def b_def mult_ac)
  have Ys: "Ys_of branch ! k = cdiv (Fin (of_real (BR_STATUS b))) (Complex (BR_R b) (BR_X b))"
    using assms by (simp add: Ys_of_def b_def Complex_eq)
  have Bc: "Bc_of branch ! k = BR_STATUS b * BR_B b"
    using assms by (simp add: Bc_of_def b_def)
  have Ytt: "Ytt_of branch ! k = Ys_of branch ! k + Fin (\<i> * of_real (Bc_of branch ! k) / 2)"
    using assms by (simp add: Ytt_of_def)
  have Yff: "Yff_of branch ! k
               = cdiv (Ytt_of branch ! k) (tap_of branch ! k * cnj (tap_of branch ! k))"
    using assms by (simp add: Yff_of_def)
  have Yft: "Yft_of branch ! k = cdiv (- Ys_of branch ! k) (cnj (tap_of branch ! k))"
    using assms by (simp add: Yft_of_def)
  have Ytf: "Ytf_of branch ! k = cdiv (- Ys_of branch ! k) (tap_of branch ! k)"
    using assms by (simp add: Ytf_of_def)
  have mats: "\<exists>Ybus Yf Yt. snd (makeYbus baseMVA bus branch) = Inr (Ybus, Yf, Yt)
                   \<and> (\<forall>j. entry Yf k j = (if F_BUS b = j then Yff_of branch ! k else 0)
                                        + (if T_BUS b = j then Yft_of branch ! k else 0))
                   \<and> (\<forall>j. entry Yt k j = (if F_BUS b = j then Ytf_of branch ! k else 0)
                                        + (if T_BUS b = j then Ytt_of branch ! k else 0))"
    if "in_range bus branch"
    using makeYbus_in_range[OF that, of baseMVA] assms
    by (auto simp: Yf_entry_def Yt_entry_def b_def)
  show ?thesis
    unfolding Let_def b_def[symmetric]
    using mats by (simp only: tap[symmetric] Ys[symmetric] Bc[symmetric] Ytt[symmetric]
        Yff[symmetric] Yft[symmetric] Ytf[symmetric]) simp
qed

theorem pi_model_terms_witness:
  "(0::nat) < length [ex_line]
   \<and> tap_of [ex_line] ! 0 = 1 \<and> Ys_of [ex_line] ! 0 = Fin 1
   \<and> Ytt_of [ex_line] ! 0 = Fin 1 \<and> Yff_of [ex_line] ! 0 = Fin 1
   \<and> Yft_of [ex_line] ! 0 = Fin (- 1) \<and> Ytf_of [ex_line] ! 0 = Fin (- 1)"
  using pi_model_terms[of 0 "[ex_line]" ex_bus2 100]
  by (simp add: Let_def ex_line_def Complex_eq)


section \<open>Scatter-add\<close>

lemma scatter_add_apply:
  "scatter_add Y r c v i j = Y i j + (if r = i \<and> c = j then v else 0)"
  by (simp add: scatter_add_def)

lemma fold_accumulate:
  fixes step :: "'k \<Rightarrow> (nat \<Rightarrow> nat \<Rightarrow> cval) \<Rightarrow> nat \<Rightarrow> nat \<Rightarrow> cval"
  assumes "\<And>k Y. step k Y i j = Y i j + g k"
  shows "fold step ks Y i j = Y i j + (\<Sum>k \<leftarrow> ks. g k)"
  by (induction ks arbitrary: Y) (simp_all add: assms add.assoc)

lemma sum_list_upt_delta:
  "(\<Sum>k \<leftarrow> [0..<n]. if k = i \<and> k = j then d k else 0) = (if i = j \<and> i < n then d i else (0::cval))"
proof -
  have "(\<Sum>k \<leftarrow> [0..<n]. if k = i \<and> k = j then d k else 0)
      = (\<Sum>k<n. if k = i then (if i = j then d i else 0) else 0)"
    unfolding interv_sum_list_conv_sum_set_nat
    by (intro sum.cong) auto
  then show ?thesis by simp
qed

lemma Ybus_scatter_entry:
  "Ybus_scatter baseMVA bus branch i j = Ybus_entry baseMVA bus branch i j"
proof -
  define g where "g k =
       (if F_BUS (branch ! k) = i \<and> F_BUS (branch ! k) = j then Yff_of branch ! k else 0)
     + (if F_BUS (branch ! k) = i \<and> T_BUS (branch ! k) = j then Yft_of branch ! k else 0)
     + (if T_BUS (branch ! k) = i \<and> F_BUS (branch ! k) = j then Ytf_of branch ! k else 0)
     + (if T_BUS (branch ! k) = i \<and> T_BUS (branch ! k) = j then Ytt_of branch ! k else 0)"
    for k
  define step where "step k Y =
       scatter_add (scatter_add (scatter_add (scatter_add Y
          (map F_BUS branch ! k) (map F_BUS branch ! k) (Yff_of branch ! k))
          (map F_BUS branch ! k) (map T_BUS branch ! k) (Yft_of branch ! k))
          (map T_BUS branch ! k) (map F_BUS branch ! k) (Ytf_of branch ! k))
          (map T_BUS branch ! k) (map T_BUS branch ! k) (Ytt_of branch ! k)"
    for k and Y :: "nat \<Rightarrow> nat \<Rightarrow> cval"
  define h where "h k = (if k = i \<and> k = j then Ysh_of baseMVA bus ! k else 0)" for k
  have branches: "fold step [0..<length branch] (\<lambda>i j. 0) i j
                    = (\<Sum>k \<leftarrow> [0..<length branch]. branch_contrib (branch ! k) i j)"
  proof -
    have "fold step ks Y i j
            = Y i j + (\<Sum>k \<leftarrow> ks. branch_contrib (branch ! k) i j)"
      if "set ks \<subseteq> {..<length branch}" for ks Y
      using that
    proof (induction ks arbitrary: Y)
      case Nil
      show ?case by simp
    next
      case (Cons k ks)
      then have k: "k < length branch" by simp
      have "step k Y i j = Y i j + branch_contrib (branch ! k) i j"
        using k by (simp add: step_def scatter_add_apply branch_contrib_def
            Yff_nth Yft_nth Ytf_nth Ytt_nth add.assoc)
      with Cons show ?case by (simp add: add.assoc)
    qed
    from this[of "[0..<length branch]" "\<lambda>i j. 0"] show ?thesis
      by (simp add: subset_iff)
  qed
  have shunts: "fold (\<lambda>k Y. scatter_add Y k k (Ysh_of baseMVA bus ! k)) [0..<length bus] Y i j
                  = Y i j + (if i = j \<and> i < length bus then Ysh_of baseMVA bus ! i else 0)" for Y
    using fold_accumulate[of "\<lambda>k Y. scatter_add Y k k (Ysh_of baseMVA bus ! k)" i j h
        "[0..<length bus]" Y]
    by (simp add: scatter_add_apply h_def sum_list_upt_delta)
  have "Ybus_scatter baseMVA bus branch i j
      = (\<Sum>k \<leftarrow> [0..<length branch]. branch_contrib (branch ! k) i j)
        + (if i = j \<and> i < length bus then Ysh_of baseMVA bus ! i else 0)"
    unfolding Ybus_scatter_def Let_def step_def[symmetric]
    by (simp only: shunts branches)
  also have "(\<Sum>k \<leftarrow> [0..<length branch]. branch_contrib (branch ! k) i j)
           = (\<Sum>b \<leftarrow> branch. branch_contrib b i j)"
    by (simp add: sum_list_sum_nth interv_sum_list_conv_sum_set_nat)
  finally show ?thesis
    by (simp only: Ybus_entry_sum)
qed

text \<open>
  C3. For every network whose branches name buses of the bus table, \<open>makeYbus\<close> returns, and
  the \<open>Ybus\<close> it builds as \<open>Cf\<^sup>T Yf + Ct\<^sup>T Yt + diag(Ysh)\<close> has at every coordinate the
  value of the matrix that scatter-adding the four terms of each branch and then the shunt
  diagonal gives. Parallel branches and the two coinciding coordinates of a branch from a
  bus to itself add up: nothing is overwritten. (For a branch that names a bus outside the
  table scipy raises and nothing is returned.)
\<close>

theorem Ybus_equals_scatter_add:
  assumes "in_range bus branch"
  shows "\<exists>Ybus Yf Yt. snd (makeYbus baseMVA bus branch) = Inr (Ybus, Yf, Yt)
           \<and> (\<forall>i j. entry Ybus i j = Ybus_scatter baseMVA bus branch i j)"
  using makeYbus_in_range[OF assms, of baseMVA]
  by (auto simp: Ybus_scatter_entry)

theorem Ybus_equals_scatter_add_witness:
  "in_range ex_bus2 [ex_line, ex_line]
   \<and> (\<exists>Ybus Yf Yt. snd (makeYbus 100 ex_bus2 [ex_line, ex_line]) = Inr (Ybus, Yf, Yt)
           \<and> (\<forall>i j. entry Ybus i j = Ybus_scatter 100 ex_bus2 [ex_line, ex_line] i j))"
proof -
  have r: "in_range ex_bus2 [ex_line, ex_line]"
    by (simp add: in_range_def ex_bus2_def ex_line_def)
  from r Ybus_equals_scatter_add[OF r, of 100] show ?thesis by blast
qed


section \<open>Branches out of service, and branches without phase shift\<close>

lemma impedance_nonzero:
  "BR_R b \<noteq> 0 \<or> BR_X b \<noteq> 0 \<Longrightarrow> complex_of_real (BR_R b) + \<i> * complex_of_real (BR_X b) \<noteq> 0"
  by (auto simp: complex_eq_iff)

lemma out_of_service_terms:
  assumes "BR_STATUS b = 0" "BR_R b \<noteq> 0 \<or> BR_X b \<noteq> 0"
  shows "Ys1 b = 0" "Ytt1 b = 0" "Yff1 b = 0" "Yft1 b = 0" "Ytf1 b = 0"
proof -
  show Ys: "Ys1 b = 0"
    using assms impedance_nonzero[of b] by (simp add: Ys1_def Fin_zero)
  show Ytt: "Ytt1 b = 0"
    using assms by (simp add: Ytt1_def Ys Fin_zero)
  show "Yff1 b = 0"
    by (simp add: Yff1_def Ytt tap1_nonzero)
  show "Yft1 b = 0"
    by (simp add: Yft1_def Ys tap1_nonzero)
  show "Ytf1 b = 0"
    by (simp add: Ytf1_def Ys tap1_nonzero)
qed

lemma short_circuit_terms:
  assumes "BR_R b = 0" "BR_X b = 0"
  shows "Ys1 b = NonFin" "Ytt1 b = NonFin" "Yff1 b = NonFin" "Yft1 b = NonFin" "Ytf1 b = NonFin"
proof -
  show Ys: "Ys1 b = NonFin"
    using assms by (simp add: Ys1_def)
  show Ytt: "Ytt1 b = NonFin"
    by (simp add: Ytt1_def Ys)
  show "Yff1 b = NonFin"
    by (simp add: Yff1_def Ytt)
  show "Yft1 b = NonFin"
    by (simp add: Yft1_def Ys)
  show "Ytf1 b = NonFin"
    by (simp add: Ytf1_def Ys)
qed

lemma Ysh_nth:
  "i < length bus \<Longrightarrow> Ysh_of baseMVA bus ! i
     = cdiv (Fin (Complex (GS (bus ! i)) (BS (bus ! i)))) (of_real baseMVA)"
  by (simp add: Ysh_of_def Complex_eq)

text \<open>
  C7, as the code has it. A branch whose status is zero and whose \<open>R\<close> and \<open>X\<close> are not both
  zero has all four terms zero. For a network whose branches name buses of the table, all
  with status zero and none with \<open>R = X = 0\<close>, \<open>makeYbus\<close> returns \<open>Ybus\<close> equal to the shunt
  diagonal \<open>diag((Gs + j Bs) / baseMVA)\<close>, and \<open>Yf\<close> and \<open>Yt\<close> with every entry zero.
\<close>

theorem out_of_service_network:
  "(\<forall>k<length branch. BR_STATUS (branch ! k) = 0
        \<and> (BR_R (branch ! k) \<noteq> 0 \<or> BR_X (branch ! k) \<noteq> 0) \<longrightarrow>
        Ys_of branch ! k = 0 \<and> Ytt_of branch ! k = 0 \<and> Yff_of branch ! k = 0
        \<and> Yft_of branch ! k = 0 \<and> Ytf_of branch ! k = 0)
   \<and> (in_range bus branch
        \<and> (\<forall>b\<in>set branch. BR_STATUS b = 0 \<and> (BR_R b \<noteq> 0 \<or> BR_X b \<noteq> 0)) \<longrightarrow>
      (\<exists>Ybus Yf Yt. snd (makeYbus baseMVA bus branch) = Inr (Ybus, Yf, Yt)
         \<and> (\<forall>i j. entry Ybus i j =
               (if i = j \<and> i < length bus
                then cdiv (Fin (Complex (GS (bus ! i)) (BS (bus ! i)))) (of_real baseMVA)
                else 0))
         \<and> (\<forall>k j. entry Yf k j = 0 \<and> entry Yt k j = 0)))"
proof -
  have terms: "Ys_of branch ! k = 0 \<and> Ytt_of branch ! k = 0 \<and> Yff_of branch ! k = 0
        \<and> Yft_of branch ! k = 0 \<and> Ytf_of branch ! k = 0"
    if "k < length branch" "BR_STATUS (branch ! k) = 0"
      "BR_R (branch ! k) \<noteq> 0 \<or> BR_X (branch ! k) \<noteq> 0" for k
    using that by (simp add: Ys_nth Ytt_nth Yff_nth Yft_nth Ytf_nth out_of_service_terms)
  have mats: "\<exists>Ybus Yf Yt. snd (makeYbus baseMVA bus branch) = Inr (Ybus, Yf, Yt)
         \<and> (\<forall>i j. entry Ybus i j =
               (if i = j \<and> i < length bus
                then cdiv (Fin (Complex (GS (bus ! i)) (BS (bus ! i)))) (of_real baseMVA)
                else 0))
         \<and> (\<forall>k j. entry Yf k j = 0 \<and> entry Yt k j = 0)"
    if r: "in_range bus branch"
      and a: "\<forall>b\<in>set branch. BR_STATUS b = 0 \<and> (BR_R b \<noteq> 0 \<or> BR_X b \<noteq> 0)"
  proof -
    have off: "BR_STATUS b = 0" "BR_R b \<noteq> 0 \<or> BR_X b \<noteq> 0" if "b \<in> set branch" for b
      using that a by auto
    have contrib: "branch_contrib b i j = 0" if "b \<in> set branch" for b i j
      by (simp add: branch_contrib_def out_of_service_terms[OF off[OF that]])
    have "(\<Sum>b \<leftarrow> branch. branch_contrib b i j) = 0" for i j
      using contrib by (induction branch) simp_all
    then have Ybus: "Ybus_entry baseMVA bus branch i j =
               (if i = j \<and> i < length bus
                then cdiv (Fin (Complex (GS (bus ! i)) (BS (bus ! i)))) (of_real baseMVA)
                else 0)" for i j
      by (simp add: Ybus_entry_sum Ysh_nth)
    have rows: "Yf_entry branch k j = 0 \<and> Yt_entry branch k j = 0" for k j
    proof (cases "k < length branch")
      case True
      then have "branch ! k \<in> set branch" by simp
      from out_of_service_terms[OF off[OF this]] True show ?thesis
        by (simp add: Yf_entry_row Yt_entry_row)
    next
      case False
      then show ?thesis by (simp add: Yf_entry_def Yt_entry_def)
    qed
    from makeYbus_in_range[OF r, of baseMVA] Ybus rows show ?thesis
      by auto
  qed
  from terms mats show ?thesis by blast
qed

theorem out_of_service_network_witness:
  "in_range ex_bus2 [ex_line_off]
   \<and> BR_STATUS ex_line_off = 0 \<and> BR_R ex_line_off = 1
   \<and> Yff_of [ex_line_off] ! 0 = 0
   \<and> (\<exists>Ybus Yf Yt. snd (makeYbus 100 ex_bus2 [ex_line_off]) = Inr (Ybus, Yf, Yt)
         \<and> entry Ybus 0 0 = 0 \<and> entry Ybus 0 1 = 0
         \<and> (\<forall>k j. entry Yf k j = 0 \<and> entry Yt k j = 0))"
proof -
  have h: "in_range ex_bus2 [ex_line_off]
     \<and> (\<forall>b\<in>set [ex_line_off]. BR_STATUS b = 0 \<and> (BR_R b \<noteq> 0 \<or> BR_X b \<noteq> 0))"
    by (simp add: in_range_def ex_bus2_def ex_line_off_def ex_line_def)
  have s: "cdiv (Fin (Complex (GS (ex_bus2 ! 0)) (BS (ex_bus2 ! 0)))) (of_real 100) = 0"
    by (simp add: ex_bus2_def bus_at_def Complex_eq Fin_zero)
  have v: "BR_STATUS ex_line_off = 0" "BR_R ex_line_off = 1"
    by (simp_all add: ex_line_off_def ex_line_def)
  from out_of_service_network[of "[ex_line_off]" ex_bus2 100] h
  obtain Ybus Yf Yt where r: "snd (makeYbus 100 ex_bus2 [ex_line_off]) = Inr (Ybus, Yf, Yt)"
    and e: "\<forall>i j. entry Ybus i j =
               (if i = j \<and> i < length ex_bus2
                then cdiv (Fin (Complex (GS (ex_bus2 ! i)) (BS (ex_bus2 ! i)))) (of_real 100)
                else 0)"
    and z: "\<forall>k j. entry Yf k j = 0 \<and> entry Yt k j = 0"
    and t: "Yff_of [ex_line_off] ! 0 = 0"
    by (auto simp: ex_line_off_def ex_line_def)
  have "entry Ybus 0 0 = 0" "entry Ybus 0 1 = 0"
    using e s by (simp_all add: ex_bus2_def)
  with h v r z t show ?thesis by blast
qed

text \<open>The claim as stated fails: a branch out of service with \<open>R = X = 0\<close> gives
  \<open>0 / 0\<close>, and the non-finite value reaches \<open>Ybus\<close>, \<open>Yf\<close> and \<open>Yt\<close>.\<close>

theorem out_of_service_short_counterexample:
  "BR_STATUS ex_short_off = 0
   \<and> \<not> raised (snd (makeYbus 100 ex_bus2 [ex_short_off]))
   \<and> entry (Ybus_ret (makeYbus 100 ex_bus2 [ex_short_off])) 0 0 = NonFin
   \<and> entry (Ybus_ret (makeYbus 100 ex_bus2 [ex_short_off])) 0 0
       \<noteq> cdiv (Fin (Complex (GS (ex_bus2 ! 0)) (BS (ex_bus2 ! 0)))) (of_real 100)
   \<and> entry (Yf_ret (makeYbus 100 ex_bus2 [ex_short_off])) 0 0 \<noteq> 0
   \<and> entry (Yt_ret (makeYbus 100 ex_bus2 [ex_short_off])) 0 0 \<noteq> 0"
proof -
  have r: "in_range ex_bus2 [ex_short_off]"
    by (simp add: in_range_def ex_bus2_def ex_short_off_def ex_line_def)
  have z: "BR_R ex_short_off = 0" "BR_X ex_short_off = 0" "BR_STATUS ex_short_off = 0"
    "F_BUS ex_short_off = 0" "T_BUS ex_short_off = 1"
    by (simp_all add: ex_short_off_def ex_line_def)
  from makeYbus_in_range[OF r, of 100]
  obtain Ybus Yf Yt where ret: "snd (makeYbus 100 ex_bus2 [ex_short_off]) = Inr (Ybus, Yf, Yt)"
    and Yf: "entry Yf 0 0 = Yf_entry [ex_short_off] 0 0"
    and Yt: "entry Yt 0 0 = Yt_entry [ex_short_off] 0 0"
    and Ybus: "entry Ybus 0 0 = Ybus_entry 100 ex_bus2 [ex_short_off] 0 0"
    by blast
  have "entry Ybus 0 0 = NonFin"
    by (simp add: Ybus Ybus_entry_sum branch_contrib_def z short_circuit_terms[OF z(1,2)])
  moreover have "entry Yf 0 0 = NonFin" "entry Yt 0 0 = NonFin"
    by (simp_all add: Yf Yt Yf_entry_row Yt_entry_row z short_circuit_terms[OF z(1,2)])
  moreover have "cdiv (Fin (Complex (GS (ex_bus2 ! 0)) (BS (ex_bus2 ! 0)))) (of_real 100) = Fin 0"
    by (simp add: ex_bus2_def bus_at_def Complex_eq)
  ultimately show ?thesis
    by (simp add: ret raised_def Ybus_ret_def Yf_ret_def Yt_ret_def z)
qed


lemma no_shift_terms:
  assumes "SHIFT b = 0"
  shows "Yft1 b = Ytf1 b"
  by (simp add: Yft1_def Ytf1_def tap1_no_shift[OF assms])

lemma unit_tap_terms:
  assumes "TAP b = 1 \<or> TAP b = 0" "SHIFT b = 0"
  shows "Yff1 b = Ytt1 b" "Yft1 b = - Ys1 b" "Ytf1 b = - Ys1 b"
proof -
  have "tap1 b = 1"
    using assms by (auto simp: tap1_no_shift)
  then show "Yff1 b = Ytt1 b" "Yft1 b = - Ys1 b" "Ytf1 b = - Ys1 b"
    by (simp_all add: Yff1_def Yft1_def Ytf1_def)
qed

lemma branch_contrib_sym:
  assumes "Yft1 b = Ytf1 b"
  shows "branch_contrib b i j = branch_contrib b j i"
proof -
  have "(if F_BUS b = i \<and> T_BUS b = j then Ytf1 b else 0)
      + (if T_BUS b = i \<and> F_BUS b = j then Ytf1 b else 0)
      = (if F_BUS b = j \<and> T_BUS b = i then Ytf1 b else 0)
      + (if T_BUS b = j \<and> F_BUS b = i then Ytf1 b else 0)"
    by (simp add: add.commute conj_commute)
  then have mid: "x + (if F_BUS b = i \<and> T_BUS b = j then Ytf1 b else 0)
      + (if T_BUS b = i \<and> F_BUS b = j then Ytf1 b else 0)
      = x + (if F_BUS b = j \<and> T_BUS b = i then Ytf1 b else 0)
      + (if T_BUS b = j \<and> F_BUS b = i then Ytf1 b else 0)" for x
    by (simp only: add.assoc)
  show ?thesis
    unfolding branch_contrib_def assms
    by (simp only: mid conj_commute[of "F_BUS b = j" "F_BUS b = i"]
        conj_commute[of "T_BUS b = j" "T_BUS b = i"])
qed

text \<open>
  C8. For every network whose branches name buses of the table, \<open>makeYbus\<close> returns, and a
  branch \<open>k\<close> with tap 1 (or tap field zero, which stands for 1) and no phase shift has
  \<open>Yff = Ytt = Ys + j Bc / 2\<close> and \<open>Yft = Ytf = - Ys\<close>, with \<open>Ys = status / (R + j X)\<close> and
  \<open>Bc = status B\<close>: these are the values at position \<open>k\<close> of the arrays and the values that
  row \<open>k\<close> of the returned \<open>Yf\<close> and \<open>Yt\<close> holds in the columns of the two buses of the
  branch. When no branch has a phase shift the returned \<open>Ybus\<close> is symmetric:
  \<open>Ybus[i, j] = Ybus[j, i]\<close> for all \<open>i\<close> and \<open>j\<close>. A network with a single such branch is
  one case of both.
\<close>

theorem no_shift_symmetric:
  "(\<forall>k<length branch. (TAP (branch ! k) = 1 \<or> TAP (branch ! k) = 0) \<and> SHIFT (branch ! k) = 0 \<longrightarrow>
        Ytt_of branch ! k = Ys_of branch ! k + Fin (\<i> * of_real (Bc_of branch ! k) / 2)
      \<and> Yff_of branch ! k = Ytt_of branch ! k
      \<and> Yft_of branch ! k = - Ys_of branch ! k
      \<and> Ytf_of branch ! k = - Ys_of branch ! k)
   \<and> (in_range bus branch \<longrightarrow>
        (\<exists>Ybus Yf Yt. snd (makeYbus baseMVA bus branch) = Inr (Ybus, Yf, Yt)
           \<and> (\<forall>k<length branch.
                 (TAP (branch ! k) = 1 \<or> TAP (branch ! k) = 0) \<and> SHIFT (branch ! k) = 0 \<longrightarrow>
                 (let b = branch ! k;
                      Ys = cdiv (Fin (of_real (BR_STATUS b))) (Complex (BR_R b) (BR_X b));
                      Ytt = Ys + Fin (\<i> * of_real (BR_STATUS b * BR_B b) / 2)
                  in (\<forall>j. entry Yf k j = (if F_BUS b = j then Ytt else 0)
                                       + (if T_BUS b = j then - Ys else 0))
                   \<and> (\<forall>j. entry Yt k j = (if F_BUS b = j then - Ys else 0)
                                       + (if T_BUS b = j then Ytt else 0))))
           \<and> ((\<forall>b\<in>set branch. SHIFT b = 0) \<longrightarrow> (\<forall>i j. entry Ybus i j = entry Ybus j i))))"
proof -
  have terms: "Ytt_of branch ! k = Ys_of branch ! k + Fin (\<i> * of_real (Bc_of branch ! k) / 2)
      \<and> Yff_of branch ! k = Ytt_of branch ! k
      \<and> Yft_of branch ! k = - Ys_of branch ! k
      \<and> Ytf_of branch ! k = - Ys_of branch ! k"
    if "k < length branch" "TAP (branch ! k) = 1 \<or> TAP (branch ! k) = 0" "SHIFT (branch ! k) = 0"
    for k
    using that unit_tap_terms[OF that(2,3)]
    by (simp add: Ys_nth Ytt_nth Yff_nth Yft_nth Ytf_nth Bc_nth Ytt1_def)
  have rows: "(let b = branch ! k;
                   Ys = cdiv (Fin (of_real (BR_STATUS b))) (Complex (BR_R b) (BR_X b));
                   Ytt = Ys + Fin (\<i> * of_real (BR_STATUS b * BR_B b) / 2)
               in (\<forall>j. Yf_entry branch k j = (if F_BUS b = j then Ytt else 0)
                                             + (if T_BUS b = j then - Ys else 0))
                \<and> (\<forall>j. Yt_entry branch k j = (if F_BUS b = j then - Ys else 0)
                                             + (if T_BUS b = j then Ytt else 0)))"
    if "k < length branch" "TAP (branch ! k) = 1 \<or> TAP (branch ! k) = 0" "SHIFT (branch ! k) = 0"
    for k
  proof -
    have Ys: "Ys1 (branch ! k) = cdiv (Fin (of_real (BR_STATUS (branch ! k))))
                                   (Complex (BR_R (branch ! k)) (BR_X (branch ! k)))"
      by (simp add: Ys1_def Complex_eq)
    show ?thesis
      unfolding Let_def Ys[symmetric] Ytt1_def[symmetric]
      by (simp add: Yf_entry_row[OF that(1)] Yt_entry_row[OF that(1)]
          unit_tap_terms[OF that(2,3)])
  qed
  have sym: "Ybus_entry baseMVA bus branch i j = Ybus_entry baseMVA bus branch j i"
    if s: "\<forall>b\<in>set branch. SHIFT b = 0" for i j
  proof -
    have "(\<Sum>b \<leftarrow> branch. branch_contrib b i j) = (\<Sum>b \<leftarrow> branch. branch_contrib b j i)"
      using s by (intro arg_cong[where f = sum_list] map_cong refl branch_contrib_sym no_shift_terms)
        simp
    then show ?thesis
      by (auto simp: Ybus_entry_sum)
  qed
  have mats: "\<exists>Ybus Yf Yt. snd (makeYbus baseMVA bus branch) = Inr (Ybus, Yf, Yt)
           \<and> (\<forall>k<length branch.
                 (TAP (branch ! k) = 1 \<or> TAP (branch ! k) = 0) \<and> SHIFT (branch ! k) = 0 \<longrightarrow>
                 (let b = branch ! k;
                      Ys = cdiv (Fin (of_real (BR_STATUS b))) (Complex (BR_R b) (BR_X b));
                      Ytt = Ys + Fin (\<i> * of_real (BR_STATUS b * BR_B b) / 2)
                  in (\<forall>j. entry Yf k j = (if F_BUS b = j then Ytt else 0)
                                       + (if T_BUS b = j then - Ys else 0))
                   \<and> (\<forall>j. entry Yt k j = (if F_BUS b = j then - Ys else 0)
                                       + (if T_BUS b = j then Ytt else 0))))
           \<and> ((\<forall>b\<in>set branch. SHIFT b = 0) \<longrightarrow> (\<forall>i j. entry Ybus i j = entry Ybus j i))"
    if r: "in_range bus branch"
  proof -
    from makeYbus_in_range[OF r, of baseMVA]
    obtain Ybus Yf Yt where ret: "snd (makeYbus baseMVA bus branch) = Inr (Ybus, Yf, Yt)"
      and eYf: "\<And>i j. entry Yf i j = Yf_entry branch i j"
      and eYt: "\<And>i j. entry Yt i j = Yt_entry branch i j"
      and eYbus: "\<And>i j. entry Ybus i j = Ybus_entry baseMVA bus branch i j"
      by blast
    have A: "\<forall>k<length branch.
                 (TAP (branch ! k) = 1 \<or> TAP (branch ! k) = 0) \<and> SHIFT (branch ! k) = 0 \<longrightarrow>
                 (let b = branch ! k;
                      Ys = cdiv (Fin (of_real (BR_STATUS b))) (Complex (BR_R b) (BR_X b));
                      Ytt = Ys + Fin (\<i> * of_real (BR_STATUS b * BR_B b) / 2)
                  in (\<forall>j. entry Yf k j = (if F_BUS b = j then Ytt else 0)
                                       + (if T_BUS b = j then - Ys else 0))
                   \<and> (\<forall>j. entry Yt k j = (if F_BUS b = j then - Ys else 0)
                                       + (if T_BUS b = j then Ytt else 0)))"
      unfolding eYf eYt using rows by blast
    have B: "(\<forall>b\<in>set branch. SHIFT b = 0) \<longrightarrow> (\<forall>i j. entry Ybus i j = entry Ybus j i)"
      unfolding eYbus using sym by blast
    from ret A B show ?thesis by blast
  qed
  from terms mats show ?thesis by blast
qed

theorem no_shift_symmetric_witness:
  "in_range ex_bus2 [ex_line] \<and> (0::nat) < length [ex_line]
   \<and> SHIFT ([ex_line] ! 0) = 0 \<and> TAP ([ex_line] ! 0) = 0
   \<and> Yff_of [ex_line] ! 0 = Ytt_of [ex_line] ! 0
   \<and> Yft_of [ex_line] ! 0 = - Ys_of [ex_line] ! 0
   \<and> Ytf_of [ex_line] ! 0 = - Ys_of [ex_line] ! 0
   \<and> (\<exists>Ybus Yf Yt. snd (makeYbus 100 ex_bus2 [ex_line]) = Inr (Ybus, Yf, Yt)
           \<and> entry Yf 0 0 = Fin 1 \<and> entry Yf 0 1 = Fin (- 1)
           \<and> entry Yt 0 0 = Fin (- 1) \<and> entry Yt 0 1 = Fin 1
           \<and> (\<forall>i j. entry Ybus i j = entry Ybus j i))"
proof -
  have h: "in_range ex_bus2 [ex_line]" "(0::nat) < length [ex_line]"
    "SHIFT ([ex_line] ! 0) = 0" "TAP ([ex_line] ! 0) = 0"
    by (simp_all add: in_range_def ex_bus2_def ex_line_def)
  have v: "F_BUS ex_line = 0" "T_BUS ex_line = 1"
    "cdiv (Fin (of_real (BR_STATUS ex_line))) (Complex (BR_R ex_line) (BR_X ex_line)) = Fin 1"
    "BR_STATUS ex_line * BR_B ex_line = 0" "SHIFT ex_line = 0" "TAP ex_line = 0"
    by (simp_all add: ex_line_def Complex_eq)
  note T = no_shift_symmetric[of "[ex_line]" ex_bus2 100]
  have arr: "Yff_of [ex_line] ! 0 = Ytt_of [ex_line] ! 0"
    "Yft_of [ex_line] ! 0 = - Ys_of [ex_line] ! 0" "Ytf_of [ex_line] ! 0 = - Ys_of [ex_line] ! 0"
    using T[THEN conjunct1, rule_format, of 0] h by simp_all
  from T[THEN conjunct2, rule_format, OF h(1)]
  obtain Ybus Yf Yt where ret: "snd (makeYbus 100 ex_bus2 [ex_line]) = Inr (Ybus, Yf, Yt)"
    and R: "\<forall>k<length [ex_line].
                 (TAP ([ex_line] ! k) = 1 \<or> TAP ([ex_line] ! k) = 0) \<and> SHIFT ([ex_line] ! k) = 0 \<longrightarrow>
                 (let b = [ex_line] ! k;
                      Ys = cdiv (Fin (of_real (BR_STATUS b))) (Complex (BR_R b) (BR_X b));
                      Ytt = Ys + Fin (\<i> * of_real (BR_STATUS b * BR_B b) / 2)
                  in (\<forall>j. entry Yf k j = (if F_BUS b = j then Ytt else 0)
                                       + (if T_BUS b = j then - Ys else 0))
                   \<and> (\<forall>j. entry Yt k j = (if F_BUS b = j then - Ys else 0)
                                       + (if T_BUS b = j then Ytt else 0)))"
    and S: "(\<forall>b\<in>set [ex_line]. SHIFT b = 0) \<longrightarrow> (\<forall>i j. entry Ybus i j = entry Ybus j i)"
    by blast
  have s: "\<forall>i j. entry Ybus i j = entry Ybus j i"
    using S v(5) by simp
  have "(let b = [ex_line] ! 0;
                      Ys = cdiv (Fin (of_real (BR_STATUS b))) (Complex (BR_R b) (BR_X b));
                      Ytt = Ys + Fin (\<i> * of_real (BR_STATUS b * BR_B b) / 2)
                  in (\<forall>j. entry Yf 0 j = (if F_BUS b = j then Ytt else 0)
                                       + (if T_BUS b = j then - Ys else 0))
                   \<and> (\<forall>j. entry Yt 0 j = (if F_BUS b = j then - Ys else 0)
                                       + (if T_BUS b = j then Ytt else 0)))"
    using R[rule_format, of 0] h by simp
  then have f: "\<And>j. entry Yf 0 j = (if (0::nat) = j then Fin 1 + Fin 0 else 0)
                                    + (if (1::nat) = j then - Fin 1 else 0)"
    and t: "\<And>j. entry Yt 0 j = (if (0::nat) = j then - Fin 1 else 0)
                                    + (if (1::nat) = j then Fin 1 + Fin 0 else 0)"
    unfolding Let_def nth_Cons_0 v of_real_0 mult_zero_right div_0 by blast+
  have "entry Yf 0 0 = Fin 1" "entry Yf 0 1 = Fin (- 1)"
    "entry Yt 0 0 = Fin (- 1)" "entry Yt 0 1 = Fin 1"
    by (simp_all add: f t)
  with h ret arr s show ?thesis by blast
qed


section \<open>Parallel branches\<close>

lemma Yf_entry_append:
  "r < length branch \<Longrightarrow> Yf_entry (branch @ extra) r j = Yf_entry branch r j"
  "r < length branch \<Longrightarrow> Yt_entry (branch @ extra) r j = Yt_entry branch r j"
  by (simp_all add: Yf_entry_row Yt_entry_row nth_append)

lemma Yf_entry_new_row:
  "Yf_entry (branch @ [b]) (length branch) j
     = (if F_BUS b = j then Yff1 b else 0) + (if T_BUS b = j then Yft1 b else 0)"
  "Yt_entry (branch @ [b]) (length branch) j
     = (if F_BUS b = j then Ytf1 b else 0) + (if T_BUS b = j then Ytt1 b else 0)"
  by (simp_all add: Yf_entry_row Yt_entry_row)

lemma Yf_entry_old_row:
  "Yf_entry (xs @ [b] @ ys) (length xs) j
     = (if F_BUS b = j then Yff1 b else 0) + (if T_BUS b = j then Yft1 b else 0)"
  "Yt_entry (xs @ [b] @ ys) (length xs) j
     = (if F_BUS b = j then Ytf1 b else 0) + (if T_BUS b = j then Ytt1 b else 0)"
  by (simp_all add: Yf_entry_row Yt_entry_row nth_append)

text \<open>
  C9, as the code has it. Take a table that holds a branch \<open>b\<close>, here \<open>xs @ [b] @ ys\<close>, and
  add a second branch with the same parameters at its end. With \<open>branch_contrib b\<close> the four
  terms of \<open>b\<close> at (from, from), (from, to), (to, from), (to, to): \<open>Ybus\<close> of the table with
  \<open>b\<close> is \<open>Ybus\<close> of the table without \<open>b\<close> plus \<open>branch_contrib b\<close>, and \<open>Ybus\<close> of the table
  with the two branches is \<open>Ybus\<close> of the table without \<open>b\<close> plus twice \<open>branch_contrib b\<close>.
  \<open>Yf\<close> and \<open>Yt\<close> have one row for each branch: the new branch adds a row that equals the
  row of \<open>b\<close>, and no entry of the rows already there changes.
\<close>

theorem parallel_branch_doubles:
  assumes "in_range bus (xs @ [b] @ ys)"
  shows "\<exists>YbusA YfA YtA YbusB YfB YtB YbusC YfC YtC.
      snd (makeYbus baseMVA bus (xs @ ys)) = Inr (YbusA, YfA, YtA)
    \<and> snd (makeYbus baseMVA bus (xs @ [b] @ ys)) = Inr (YbusB, YfB, YtB)
    \<and> snd (makeYbus baseMVA bus (xs @ [b] @ ys @ [b])) = Inr (YbusC, YfC, YtC)
    \<and> (\<forall>i j. entry YbusB i j = entry YbusA i j + branch_contrib b i j
            \<and> entry YbusC i j = entry YbusA i j + (branch_contrib b i j + branch_contrib b i j))
    \<and> (\<forall>r j. r < length (xs @ [b] @ ys) \<longrightarrow>
            entry YfC r j = entry YfB r j \<and> entry YtC r j = entry YtB r j)
    \<and> (\<forall>j. entry YfC (length (xs @ [b] @ ys)) j = entry YfB (length xs) j
          \<and> entry YtC (length (xs @ [b] @ ys)) j = entry YtB (length xs) j)"
proof -
  have rA: "in_range bus (xs @ ys)" and rB: "in_range bus (xs @ [b] @ ys)"
    and rC: "in_range bus (xs @ [b] @ ys @ [b])"
    using assms by (simp_all add: in_range_def)
  from makeYbus_in_range[OF rA, of baseMVA]
  obtain YbusA YfA YtA where A: "snd (makeYbus baseMVA bus (xs @ ys)) = Inr (YbusA, YfA, YtA)"
    and A_bus: "\<And>i j. entry YbusA i j = Ybus_entry baseMVA bus (xs @ ys) i j"
    by blast
  from makeYbus_in_range[OF rB, of baseMVA]
  obtain YbusB YfB YtB
    where B: "snd (makeYbus baseMVA bus (xs @ [b] @ ys)) = Inr (YbusB, YfB, YtB)"
    and B_bus: "\<And>i j. entry YbusB i j = Ybus_entry baseMVA bus (xs @ [b] @ ys) i j"
    and B_f: "\<And>i j. entry YfB i j = Yf_entry (xs @ [b] @ ys) i j"
    and B_t: "\<And>i j. entry YtB i j = Yt_entry (xs @ [b] @ ys) i j"
    by blast
  from makeYbus_in_range[OF rC, of baseMVA]
  obtain YbusC YfC YtC
    where C: "snd (makeYbus baseMVA bus (xs @ [b] @ ys @ [b])) = Inr (YbusC, YfC, YtC)"
    and C_bus: "\<And>i j. entry YbusC i j = Ybus_entry baseMVA bus (xs @ [b] @ ys @ [b]) i j"
    and C_f: "\<And>i j. entry YfC i j = Yf_entry (xs @ [b] @ ys @ [b]) i j"
    and C_t: "\<And>i j. entry YtC i j = Yt_entry (xs @ [b] @ ys @ [b]) i j"
    by blast
  have bus: "entry YbusB i j = entry YbusA i j + branch_contrib b i j
           \<and> entry YbusC i j = entry YbusA i j + (branch_contrib b i j + branch_contrib b i j)"
    for i j
    unfolding A_bus B_bus C_bus Ybus_entry_sum
    by (simp add: ac_simps)
  have old: "entry YfC r j = entry YfB r j \<and> entry YtC r j = entry YtB r j"
    if "r < length (xs @ [b] @ ys)" for r j
    unfolding B_f B_t C_f C_t
    using Yf_entry_append[of r "xs @ [b] @ ys" "[b]" j] that by simp
  have new: "entry YfC (length (xs @ [b] @ ys)) j = entry YfB (length xs) j
          \<and> entry YtC (length (xs @ [b] @ ys)) j = entry YtB (length xs) j" for j
    unfolding B_f B_t C_f C_t
    using Yf_entry_new_row[of "xs @ [b] @ ys" b j] Yf_entry_old_row[of xs b ys j] by simp
  from A B C bus old new show ?thesis by blast
qed

theorem parallel_branch_doubles_witness:
  "in_range ex_bus2 ([] @ [ex_line] @ [ex_line_off])
   \<and> (\<exists>YbusA YfA YtA YbusB YfB YtB YbusC YfC YtC.
      snd (makeYbus 100 ex_bus2 [ex_line_off]) = Inr (YbusA, YfA, YtA)
    \<and> snd (makeYbus 100 ex_bus2 [ex_line, ex_line_off]) = Inr (YbusB, YfB, YtB)
    \<and> snd (makeYbus 100 ex_bus2 [ex_line, ex_line_off, ex_line]) = Inr (YbusC, YfC, YtC)
    \<and> entry YbusB 0 1 = entry YbusA 0 1 + Fin (- 1)
    \<and> entry YbusC 0 1 = entry YbusA 0 1 + Fin (- 2)
    \<and> entry YfC 0 0 = entry YfB 0 0
    \<and> entry YfC 2 0 = entry YfB 0 0)"
proof -
  have r: "in_range ex_bus2 ([] @ [ex_line] @ [ex_line_off])"
    by (simp add: in_range_def ex_bus2_def ex_line_def ex_line_off_def)
  have c: "branch_contrib ex_line 0 (Suc 0) = Fin (- 1)"
    by (simp add: branch_contrib_def Yft1_def Ys1_def tap1_def ex_line_def)
  from parallel_branch_doubles[OF r, of 100]
  obtain YbusA YfA YtA YbusB YfB YtB YbusC YfC YtC
    where A: "snd (makeYbus 100 ex_bus2 [ex_line_off]) = Inr (YbusA, YfA, YtA)"
      and B: "snd (makeYbus 100 ex_bus2 [ex_line, ex_line_off]) = Inr (YbusB, YfB, YtB)"
      and C: "snd (makeYbus 100 ex_bus2 [ex_line, ex_line_off, ex_line]) = Inr (YbusC, YfC, YtC)"
      and bus: "\<And>i j. entry YbusB i j = entry YbusA i j + branch_contrib ex_line i j
            \<and> entry YbusC i j = entry YbusA i j
                  + (branch_contrib ex_line i j + branch_contrib ex_line i j)"
      and old: "\<And>r j. r < length ([] @ [ex_line] @ [ex_line_off]) \<longrightarrow>
            entry YfC r j = entry YfB r j \<and> entry YtC r j = entry YtB r j"
      and new: "\<And>j. entry YfC (length ([] @ [ex_line] @ [ex_line_off])) j
                  = entry YfB (length ([]::branch_row list)) j
          \<and> entry YtC (length ([] @ [ex_line] @ [ex_line_off])) j
                  = entry YtB (length ([]::branch_row list)) j"
    by auto
  have "entry YbusB 0 1 = entry YbusA 0 1 + Fin (- 1)"
    "entry YbusC 0 1 = entry YbusA 0 1 + Fin (- 2)"
    using bus[of 0 1] by (simp_all add: c)
  moreover have "entry YfC 0 0 = entry YfB 0 0"
    using old[of 0 0] by simp
  moreover have "entry YfC 2 0 = entry YfB 0 0"
    using new[of 0] by (simp add: numeral_2_eq_2)
  ultimately show ?thesis
    using r A B C by blast
qed

text \<open>The claim as stated fails for \<open>Yf\<close> and \<open>Yt\<close>: with one line from bus 0 to bus 1 and
  with two such lines, the entry of \<open>Yf\<close> and \<open>Yt\<close> in the row of the first line is the same,
  and the entry in the row of the second line equals it; neither is twice it.\<close>

theorem parallel_branch_Yf_counterexample:
  "\<not> raised (snd (makeYbus 100 ex_bus2 [ex_line, ex_line]))
   \<and> entry (Yf_ret (makeYbus 100 ex_bus2 [ex_line])) 0 0 = Fin 1
   \<and> entry (Yf_ret (makeYbus 100 ex_bus2 [ex_line, ex_line])) 0 0 = Fin 1
   \<and> entry (Yf_ret (makeYbus 100 ex_bus2 [ex_line, ex_line])) 1 0 = Fin 1
   \<and> entry (Yf_ret (makeYbus 100 ex_bus2 [ex_line, ex_line])) 0 0
       \<noteq> entry (Yf_ret (makeYbus 100 ex_bus2 [ex_line])) 0 0
         + entry (Yf_ret (makeYbus 100 ex_bus2 [ex_line])) 0 0
   \<and> entry (Yf_ret (makeYbus 100 ex_bus2 [ex_line, ex_line])) 1 0
       \<noteq> entry (Yf_ret (makeYbus 100 ex_bus2 [ex_line])) 0 0
         + entry (Yf_ret (makeYbus 100 ex_bus2 [ex_line])) 0 0
   \<and> entry (Yt_ret (makeYbus 100 ex_bus2 [ex_line, ex_line])) 0 1
       \<noteq> entry (Yt_ret (makeYbus 100 ex_bus2 [ex_line])) 0 1
         + entry (Yt_ret (makeYbus 100 ex_bus2 [ex_line])) 0 1"
proof -
  have r1: "in_range ex_bus2 [ex_line]" and r2: "in_range ex_bus2 [ex_line, ex_line]"
    by (simp_all add: in_range_def ex_bus2_def ex_line_def)
  have v: "F_BUS ex_line = 0" "T_BUS ex_line = 1" "Yff1 ex_line = Fin 1" "Ytt1 ex_line = Fin 1"
    by (simp_all add: Yff1_def Ytt1_def Ys1_def tap1_def ex_line_def)
  from makeYbus_in_range[OF r1, of 100]
  obtain Ybus1 Yf1' Yt1' where one: "snd (makeYbus 100 ex_bus2 [ex_line]) = Inr (Ybus1, Yf1', Yt1')"
    and f1: "\<And>i j. entry Yf1' i j = Yf_entry [ex_line] i j"
    and t1: "\<And>i j. entry Yt1' i j = Yt_entry [ex_line] i j"
    by blast
  from makeYbus_in_range[OF r2, of 100]
  obtain Ybus2 Yf2 Yt2
    where two: "snd (makeYbus 100 ex_bus2 [ex_line, ex_line]) = Inr (Ybus2, Yf2, Yt2)"
    and f2: "\<And>i j. entry Yf2 i j = Yf_entry [ex_line, ex_line] i j"
    and t2: "\<And>i j. entry Yt2 i j = Yt_entry [ex_line, ex_line] i j"
    by blast
  show ?thesis
    by (simp add: one two raised_def Yf_ret_def Yt_ret_def f1 f2 t1 t2
        Yf_entry_row Yt_entry_row v)
qed


section \<open>What makeYbus does with bad data\<close>

lemma makeYbus_stderr: "fst (makeYbus baseMVA bus branch) = bus_order_warning bus"
  by (simp add: makeYbus_def Let_def)

lemma bus_order_warning_misordered:
  assumes "i < length bus" "BUS_I (bus ! i) \<noteq> of_nat i"
  shows "bus_order_warning bus = [''buses must appear in order by bus number'' @ [CHR 0x0A]]"
proof -
  have "(bus ! i, i) \<in> set (zip bus [0..<length bus])"
    using assms(1) by (auto simp: set_zip)
  with assms(2) have "list_ex (\<lambda>(b, i). BUS_I b \<noteq> of_nat i) (zip bus [0..<length bus])"
    unfolding list_ex_iff by blast
  then show ?thesis
    by (simp add: bus_order_warning_def)
qed

text \<open>
  C4, as the code has it. For every bus table in which some bus record's number differs
  from its position, \<open>makeYbus\<close> writes the line \<open>buses must appear in order by bus number\<close>
  to \<open>stderr\<close> and goes on: when every branch names buses of the table it returns \<open>Ybus\<close>,
  \<open>Yf\<close> and \<open>Yt\<close>, and no data-integrity error is raised (the one exception there is, scipy's
  \<open>ValueError\<close>, is for a branch that names a bus outside the table).
\<close>

theorem misordered_buses_only_warn:
  assumes "i < length bus" "BUS_I (bus ! i) \<noteq> of_nat i"
  shows "fst (makeYbus baseMVA bus branch)
           = [''buses must appear in order by bus number'' @ [CHR 0x0A]]
       \<and> (in_range bus branch \<longrightarrow>
             (\<exists>Ybus Yf Yt. snd (makeYbus baseMVA bus branch) = Inr (Ybus, Yf, Yt)))
       \<and> (\<not> in_range bus branch \<longrightarrow> snd (makeYbus baseMVA bus branch) = Inl ValueError)"
proof -
  have "\<exists>Ybus Yf Yt. snd (makeYbus baseMVA bus branch) = Inr (Ybus, Yf, Yt)"
    if "in_range bus branch"
    using makeYbus_in_range[OF that, of baseMVA] by blast
  then show ?thesis
    by (simp add: makeYbus_stderr bus_order_warning_misordered[OF assms] makeYbus_out_of_range)
qed

theorem misordered_buses_only_warn_witness:
  "(1::nat) < length ex_bus021 \<and> BUS_I (ex_bus021 ! 1) = 2 \<and> in_range ex_bus021 [ex_line]
   \<and> fst (makeYbus 100 ex_bus021 [ex_line])
        = [''buses must appear in order by bus number'' @ [CHR 0x0A]]
   \<and> (\<exists>Ybus Yf Yt. snd (makeYbus 100 ex_bus021 [ex_line]) = Inr (Ybus, Yf, Yt))"
proof -
  have h: "(1::nat) < length ex_bus021" "BUS_I (ex_bus021 ! 1) = 2" "in_range ex_bus021 [ex_line]"
    by (simp_all add: ex_bus021_def bus_at_def in_range_def ex_line_def)
  then have "BUS_I (ex_bus021 ! 1) \<noteq> of_nat 1" by simp
  from misordered_buses_only_warn[OF h(1) this, of 100 "[ex_line]"] h show ?thesis
    by simp
qed

text \<open>The claim as stated fails: with the buses numbered 0, 2, 1 the call returns.\<close>

theorem misordered_buses_counterexample:
  "map BUS_I ex_bus021 = [0, 2, 1]
   \<and> \<not> raised (snd (makeYbus 100 ex_bus021 [ex_line]))
   \<and> fst (makeYbus 100 ex_bus021 [ex_line])
        = [''buses must appear in order by bus number'' @ [CHR 0x0A]]
   \<and> nrows (Ybus_ret (makeYbus 100 ex_bus021 [ex_line])) = 3
   \<and> entry (Ybus_ret (makeYbus 100 ex_bus021 [ex_line])) 0 1 = Fin (- 1)"
proof -
  have r: "in_range ex_bus021 [ex_line]"
    by (simp add: ex_bus021_def in_range_def ex_line_def)
  have ids: "map BUS_I ex_bus021 = [0, 2, 1]"
    by (simp add: ex_bus021_def bus_at_def)
  have w: "bus_order_warning ex_bus021
             = [''buses must appear in order by bus number'' @ [CHR 0x0A]]"
    by (rule bus_order_warning_misordered[of 1]) (simp_all add: ex_bus021_def bus_at_def)
  from makeYbus_in_range[OF r, of 100]
  obtain Ybus Yf Yt where ret: "snd (makeYbus 100 ex_bus021 [ex_line]) = Inr (Ybus, Yf, Yt)"
    and e: "\<And>i j. entry Ybus i j = Ybus_entry 100 ex_bus021 [ex_line] i j"
    by blast
  have "entry Ybus 0 1 = Fin (- 1)"
    by (simp add: e Ybus_entry_sum branch_contrib_def Yft1_def Ys1_def tap1_def ex_line_def)
  moreover have "nrows Ybus = 3"
    using ret
    by (auto simp: makeYbus_def Let_def bind_err_def csr_matrix_def mul_smat_def add_smat_def
        transpose_smat_def ex_bus021_def split: sum.splits if_splits)
  ultimately show ?thesis
    by (simp add: ids ret raised_def Ybus_ret_def makeYbus_stderr w)
qed

text \<open>
  C5, as the code has it. For every branch table, its branches naming buses of the table,
  that holds a branch in service with \<open>R = 0\<close> and \<open>X = 0\<close>, \<open>makeYbus\<close> reports no error: it
  returns \<open>Ybus\<close>, \<open>Yf\<close> and \<open>Yt\<close>, and the series admittance of that branch and the entries
  \<open>Yf[k, from]\<close>, \<open>Yt[k, to]\<close> and \<open>Ybus[from, from]\<close> are non-finite.
\<close>

theorem zero_impedance_returns_non_finite:
  assumes "in_range bus branch" "k < length branch"
    and "BR_STATUS (branch ! k) \<noteq> 0" "BR_R (branch ! k) = 0" "BR_X (branch ! k) = 0"
  shows "\<exists>Ybus Yf Yt. snd (makeYbus baseMVA bus branch) = Inr (Ybus, Yf, Yt)
           \<and> Ys_of branch ! k = NonFin
           \<and> entry Yf k (F_BUS (branch ! k)) = NonFin
           \<and> entry Yt k (T_BUS (branch ! k)) = NonFin
           \<and> entry Ybus (F_BUS (branch ! k)) (F_BUS (branch ! k)) = NonFin"
proof -
  define b where "b = branch ! k"
  have bad: "Ys1 b = NonFin" "Ytt1 b = NonFin" "Yff1 b = NonFin"
    using short_circuit_terms[of b] assms(4,5) by (simp_all add: b_def)
  have "branch_contrib b (F_BUS b) (F_BUS b) = NonFin"
    by (simp add: branch_contrib_def bad)
  moreover have "b \<in> set branch"
    using assms(2) by (simp add: b_def)
  ultimately have "NonFin \<in> set (map (\<lambda>b'. branch_contrib b' (F_BUS b) (F_BUS b)) branch)"
    by force
  then have "(\<Sum>b' \<leftarrow> branch. branch_contrib b' (F_BUS b) (F_BUS b)) = NonFin"
    by (rule sum_list_NonFin)
  then have bus: "Ybus_entry baseMVA bus branch (F_BUS b) (F_BUS b) = NonFin"
    by (simp add: Ybus_entry_sum)
  have rows: "Yf_entry branch k (F_BUS b) = NonFin" "Yt_entry branch k (T_BUS b) = NonFin"
    using assms(2) by (simp_all add: Yf_entry_row Yt_entry_row bad b_def[symmetric])
  from makeYbus_in_range[OF assms(1), of baseMVA] bus rows bad(1) assms(2) show ?thesis
    unfolding b_def by (auto simp: Ys_nth)
qed

theorem zero_impedance_returns_non_finite_witness:
  "in_range ex_bus2 [ex_short] \<and> (0::nat) < length [ex_short]
   \<and> BR_STATUS ([ex_short] ! 0) = 1 \<and> BR_R ([ex_short] ! 0) = 0 \<and> BR_X ([ex_short] ! 0) = 0
   \<and> (\<exists>Ybus Yf Yt. snd (makeYbus 100 ex_bus2 [ex_short]) = Inr (Ybus, Yf, Yt)
           \<and> entry Yf 0 0 = NonFin \<and> entry Yt 0 1 = NonFin \<and> entry Ybus 0 0 = NonFin)"
proof -
  have h: "in_range ex_bus2 [ex_short]" "(0::nat) < length [ex_short]"
    "BR_STATUS ([ex_short] ! 0) = 1" "BR_R ([ex_short] ! 0) = 0" "BR_X ([ex_short] ! 0) = 0"
    "F_BUS ([ex_short] ! 0) = 0" "T_BUS ([ex_short] ! 0) = 1"
    by (simp_all add: in_range_def ex_bus2_def ex_short_def ex_line_def)
  then have "BR_STATUS ([ex_short] ! 0) \<noteq> 0" by simp
  from zero_impedance_returns_non_finite[OF h(1,2) this h(4,5), of 100] h show ?thesis
    by (simp del: nth_Cons_0) (metis One_nat_def)
qed

text \<open>The claim as stated fails: a line in service with \<open>R = X = 0\<close>, and the call returns
  matrices with a non-finite entry.\<close>

theorem zero_impedance_counterexample:
  "BR_STATUS ex_short = 1 \<and> BR_R ex_short = 0 \<and> BR_X ex_short = 0
   \<and> \<not> raised (snd (makeYbus 100 ex_bus2 [ex_short]))
   \<and> entry (Yf_ret (makeYbus 100 ex_bus2 [ex_short])) 0 0 = NonFin
   \<and> entry (Ybus_ret (makeYbus 100 ex_bus2 [ex_short])) 0 0 = NonFin"
proof -
  have r: "in_range ex_bus2 [ex_short]"
    by (simp add: in_range_def ex_bus2_def ex_short_def ex_line_def)
  have z: "BR_R ex_short = 0" "BR_X ex_short = 0" "BR_STATUS ex_short = 1"
    "F_BUS ex_short = 0" "T_BUS ex_short = 1"
    by (simp_all add: ex_short_def ex_line_def)
  from makeYbus_in_range[OF r, of 100]
  obtain Ybus Yf Yt where ret: "snd (makeYbus 100 ex_bus2 [ex_short]) = Inr (Ybus, Yf, Yt)"
    and Yf: "entry Yf 0 0 = Yf_entry [ex_short] 0 0"
    and Ybus: "entry Ybus 0 0 = Ybus_entry 100 ex_bus2 [ex_short] 0 0"
    by blast
  have "entry Ybus 0 0 = NonFin"
    by (simp add: Ybus Ybus_entry_sum branch_contrib_def z short_circuit_terms[OF z(1,2)])
  moreover have "entry Yf 0 0 = NonFin"
    by (simp add: Yf Yf_entry_row z short_circuit_terms[OF z(1,2)])
  ultimately show ?thesis
    by (simp add: ret raised_def Ybus_ret_def Yf_ret_def z)
qed


section \<open>The derivative matrices\<close>

lemma mat_mul_diag_left:
  assumes "i < n"
  shows "mat_mul n (mat_diag x) B i j = x i * B i j"
proof -
  have "(\<Sum>k<n. (if i = k then x i else 0) * B k j) = (\<Sum>k<n. if k = i then x i * B i j else 0)"
    by (intro sum.cong) auto
  with assms show ?thesis
    by (simp add: mat_mul_def mat_diag_def)
qed

lemma mat_mul_diag_right:
  assumes "j < n"
  shows "mat_mul n A (mat_diag x) i j = A i j * x j"
proof -
  have "(\<Sum>k<n. A i k * (if k = j then x k else 0)) = (\<Sum>k<n. if k = j then A i j * x j else 0)"
    by (intro sum.cong) auto
  with assms show ?thesis
    by (simp add: mat_mul_def mat_diag_def)
qed

lemma mat_conj_diag: "mat_conj (mat_diag x) = mat_diag (\<lambda>k. cnj (x k))"
  by (auto simp: mat_conj_def mat_diag_def fun_eq_iff)

lemma spec_dS_dVm_entry:
  assumes "i < n" "j < n"
  shows "spec_dS_dVm n Y V i j =
           V i * cnj (Y i j * (V j / of_real (cmod (V j))))
         + (if i = j then cnj (mat_vec n Y V i) * (V i / of_real (cmod (V i))) else 0)"
proof -
  have "mat_mul n (mat_diag V)
          (mat_conj (mat_mul n Y (mat_diag (\<lambda>i. V i / of_real (cmod (V i)))))) i j
          = V i * cnj (Y i j * (V j / of_real (cmod (V j))))"
    unfolding mat_mul_diag_left[OF assms(1)] mat_conj_def mat_mul_diag_right[OF assms(2)] ..
  moreover have "mat_mul n (mat_conj (mat_diag (mat_vec n Y V)))
                    (mat_diag (\<lambda>i. V i / of_real (cmod (V i)))) i j
          = (if i = j then cnj (mat_vec n Y V i) * (V i / of_real (cmod (V i))) else 0)"
    unfolding mat_mul_diag_right[OF assms(2)]
    by (simp add: mat_conj_def mat_diag_def)
  ultimately show ?thesis
    by (simp only: spec_dS_dVm_def Let_def mat_add_def)
qed

lemma spec_dS_dVa_entry:
  assumes "i < n" "j < n"
  shows "spec_dS_dVa n Y V i j =
           \<i> * (V i * cnj ((if i = j then mat_vec n Y V i else 0) - Y i j * V j))"
proof -
  have "mat_mul n (mat_diag V) (mat_conj (mat_sub (mat_diag (mat_vec n Y V))
                                                   (mat_mul n Y (mat_diag V)))) i j
          = V i * cnj ((if i = j then mat_vec n Y V i else 0) - Y i j * V j)"
    unfolding mat_mul_diag_left[OF assms(1)] mat_conj_def mat_sub_def
      mat_mul_diag_right[OF assms(2)]
    by (simp add: mat_diag_def)
  then show ?thesis
    by (simp only: spec_dS_dVa_def Let_def mat_scale_def)
qed

lemma Ibus_finite:
  assumes "finite_smat Ybus"
  shows "Ibus Ybus V i = Fin (mat_vec (length V) (dense Ybus) (\<lambda>k. V ! k) i)"
  by (simp add: Ibus_def mat_vec_def finite_entry[OF assms] sum_Fin)

lemma Vnorm_nth:
  "k < length V \<Longrightarrow> Vnorm V ! k = cdiv (Fin (V ! k)) (of_real (cmod (V ! k)))"
  by (simp add: Vnorm_def)

lemma dVa_entry_finite:
  assumes fin: "finite_smat Ybus" and V: "length V = n" and ij: "i < n" "j < n"
  shows "Fin (\<i> * V ! i) * conj_cval ((if i = j then Ibus Ybus V i else 0)
                                     + - (entry Ybus i j * Fin (V ! j)))
       = Fin (spec_dS_dVa n (dense Ybus) (\<lambda>k. V ! k) i j)"
  unfolding spec_dS_dVa_entry[OF ij] Ibus_finite[OF fin] finite_entry[OF fin] V
  by (simp add: Fin_zero[symmetric] mult.assoc)

lemma dVm_entry_finite:
  assumes fin: "finite_smat Ybus" and V: "length V = n" and ij: "i < n" "j < n"
    and nz: "\<forall>v\<in>set V. v \<noteq> 0"
  shows "Fin (V ! i) * conj_cval (\<Sum>x \<leftarrow> elems Ybus. if fst x = i \<and> fst (snd x) = j
                                  then snd (snd x) * Vnorm V ! j else 0)
           + (if i = j then conj_cval (Ibus Ybus V i) * Vnorm V ! i else 0)
       = Fin (spec_dS_dVm n (dense Ybus) (\<lambda>k. V ! k) i j)"
proof -
  have vn: "Vnorm V ! k = Fin (V ! k / of_real (cmod (V ! k)))" if "k < n" for k
    using that nz V by (simp add: Vnorm_nth)
  have "(\<Sum>x \<leftarrow> elems Ybus. if fst x = i \<and> fst (snd x) = j
                                  then snd (snd x) * Vnorm V ! j else 0)
      = Fin (dense Ybus i j) * Fin (V ! j / of_real (cmod (V ! j)))"
    unfolding vn[OF ij(2)] sum_list_mult_Fin_right entry_alt[symmetric]
    by (simp add: finite_entry[OF fin])
  then show ?thesis
    unfolding spec_dS_dVm_entry[OF ij] Ibus_finite[OF fin] V vn[OF ij(1)]
    by (simp add: Fin_zero[symmetric])
qed

text \<open>
  C2. For every square matrix \<open>Ybus\<close> of complex numbers of size \<open>n\<close> and every complex
  vector \<open>V\<close> of length \<open>n\<close> with no zero entry, \<open>dSbus_dV\<close> returns a pair of \<open>n \<times> n\<close>
  matrices whose entries are those of
  \<open>diag(V) conj(Ybus diag(V / |V|)) + conj(diag(Ybus V)) diag(V / |V|)\<close> and of
  \<open>j diag(V) conj(diag(Ybus V) - Ybus diag(V))\<close>, the formulas read on dense matrices.
  (A sparse matrix of scipy has a positive size: \<open>V\<close> is not empty.)
\<close>

theorem dSbus_dV_formulas:
  assumes "nrows Ybus = n" "ncols Ybus = n" "valid_smat Ybus" "finite_smat Ybus"
    and "length V = n" "V \<noteq> []" "\<forall>v\<in>set V. cmod v \<noteq> 0"
  shows "\<exists>dS_dVm dS_dVa. dSbus_dV Ybus V = Inr (dS_dVm, dS_dVa)
     \<and> nrows dS_dVm = n \<and> ncols dS_dVm = n \<and> nrows dS_dVa = n \<and> ncols dS_dVa = n
     \<and> (\<forall>i<n. \<forall>j<n.
            entry dS_dVm i j = Fin (spec_dS_dVm n (dense Ybus) (\<lambda>k. V ! k) i j)
          \<and> entry dS_dVa i j = Fin (spec_dS_dVa n (dense Ybus) (\<lambda>k. V ! k) i j))"
proof -
  have n: "0 < n" using assms(5,6) by auto
  have nz: "\<forall>v\<in>set V. v \<noteq> 0" using assms(7) by auto
  from dSbus_dV_entries[OF assms(1,2,5) n assms(3)]
  show ?thesis
    by (auto simp: dVa_entry_finite[OF assms(4,5)] dVm_entry_finite[OF assms(4,5) _ _ nz])
qed

theorem dSbus_dV_formulas_witness:
  "nrows ex_Y1 = 1 \<and> ncols ex_Y1 = 1 \<and> valid_smat ex_Y1 \<and> finite_smat ex_Y1
   \<and> length [2::complex] = 1 \<and> cmod 2 = 2
   \<and> (\<exists>dS_dVm dS_dVa. dSbus_dV ex_Y1 [2] = Inr (dS_dVm, dS_dVa)
        \<and> entry dS_dVm 0 0 = Fin 4 \<and> entry dS_dVa 0 0 = Fin 0)"
proof -
  have h: "nrows ex_Y1 = 1" "ncols ex_Y1 = 1" "valid_smat ex_Y1" "finite_smat ex_Y1"
    "length [2::complex] = 1" "[2::complex] \<noteq> []" "\<forall>v\<in>set [2::complex]. cmod v \<noteq> 0"
    by (simp_all add: ex_Y1_def valid_smat_def finite_smat_def)
  have d: "dense ex_Y1 0 0 = 1"
    by (simp add: dense_def entry_def ex_Y1_def)
  have m: "spec_dS_dVm 1 (dense ex_Y1) (\<lambda>k. [2] ! k) 0 0 = 4"
    by (simp add: spec_dS_dVm_entry mat_vec_def d)
  have a: "spec_dS_dVa 1 (dense ex_Y1) (\<lambda>k. [2] ! k) 0 0 = 0"
    by (simp add: spec_dS_dVa_entry mat_vec_def d)
  from dSbus_dV_formulas[OF h] h m a show ?thesis
    by auto
qed


lemma sum_scaled_cnj_diff:
  fixes a b :: "nat \<Rightarrow> complex"
  shows "(\<Sum>j<n. c * (d * cnj (a j - b j))) = c * (d * cnj ((\<Sum>j<n. a j) - (\<Sum>j<n. b j)))"
proof -
  have "(\<Sum>j<n. c * (d * cnj (a j - b j))) = c * (d * (\<Sum>j<n. cnj (a j - b j)))"
    by (simp only: sum_distrib_left)
  also have "(\<Sum>j<n. cnj (a j - b j)) = cnj ((\<Sum>j<n. a j) - (\<Sum>j<n. b j))"
    by (simp only: sum_subtractf[symmetric] cnj_sum)
  finally show ?thesis .
qed

text \<open>
  C10. For every square matrix \<open>Ybus\<close> of complex numbers and every complex vector \<open>V\<close> of
  its size, every row of the \<open>dS_dVa\<close> that \<open>dSbus_dV\<close> returns sums to zero: the entries
  of row \<open>i\<close> add up to \<open>j V\<^sub>i conj((Ybus V)\<^sub>i - \<Sum>\<^sub>k Ybus\<^sub>i\<^sub>k V\<^sub>k)\<close>, which vanishes. This
  needs no condition on the magnitudes of \<open>V\<close>.
\<close>

theorem dS_dVa_rows_sum_to_zero:
  assumes "nrows Ybus = n" "ncols Ybus = n" "valid_smat Ybus" "finite_smat Ybus"
    and "length V = n" "V \<noteq> []"
  shows "\<exists>dS_dVm dS_dVa. dSbus_dV Ybus V = Inr (dS_dVm, dS_dVa)
     \<and> nrows dS_dVa = n \<and> ncols dS_dVa = n
     \<and> (\<forall>i<n. (\<Sum>j<n. entry dS_dVa i j) = 0)"
proof -
  have n: "0 < n" using assms(5,6) by auto
  from dSbus_dV_entries[OF assms(1,2,5) n assms(3)]
  obtain dVm dVa where ret: "dSbus_dV Ybus V = Inr (dVm, dVa)"
    and shape: "nrows dVa = n" "ncols dVa = n"
    and e: "\<And>i j. i < n \<Longrightarrow> j < n \<Longrightarrow> entry dVa i j =
           Fin (\<i> * V ! i) * conj_cval ((if i = j then Ibus Ybus V i else 0)
                                     + - (entry Ybus i j * Fin (V ! j)))"
    by blast
  have row: "(\<Sum>j<n. entry dVa i j) = 0" if i: "i < n" for i
  proof -
    define Y where "Y = dense Ybus"
    define I where "I = (\<Sum>k<n. Y i k * V ! k)"
    have "(\<Sum>j<n. entry dVa i j)
        = (\<Sum>j<n. Fin (\<i> * (V ! i * cnj ((if i = j then I else 0) - Y i j * V ! j))))"
      by (intro sum.cong refl)
         (simp add: e[OF i] dVa_entry_finite[OF assms(4,5) i] spec_dS_dVa_entry[OF i]
            mat_vec_def Y_def I_def)
    also have "\<dots> = Fin (\<Sum>j<n. \<i> * (V ! i * cnj ((if i = j then I else 0) - Y i j * V ! j)))"
      by (rule sum_Fin)
    also have "(\<Sum>j<n. \<i> * (V ! i * cnj ((if i = j then I else 0) - Y i j * V ! j)))
             = \<i> * (V ! i * cnj ((\<Sum>j<n. if i = j then I else 0) - (\<Sum>j<n. Y i j * V ! j)))"
      by (rule sum_scaled_cnj_diff)
    also have "(\<Sum>j<n. if i = j then I else 0) = I"
      using i by simp
    finally show ?thesis
      by (simp add: I_def Fin_zero)
  qed
  from ret shape row show ?thesis by blast
qed

theorem dS_dVa_rows_sum_to_zero_witness:
  "nrows ex_Y2 = 2 \<and> ncols ex_Y2 = 2 \<and> valid_smat ex_Y2 \<and> finite_smat ex_Y2
   \<and> length [1, 2::complex] = 2
   \<and> (\<exists>dS_dVm dS_dVa. dSbus_dV ex_Y2 [1, 2] = Inr (dS_dVm, dS_dVa)
        \<and> nrows dS_dVa = 2 \<and> ncols dS_dVa = 2
        \<and> entry dS_dVa 0 0 = Fin (4 * \<i>) \<and> entry dS_dVa 0 1 = Fin (- (4 * \<i>))
        \<and> entry dS_dVa 0 0 + entry dS_dVa 0 1 = 0
        \<and> entry dS_dVa 1 0 + entry dS_dVa 1 1 = 0)"
proof -
  have h: "nrows ex_Y2 = 2" "ncols ex_Y2 = 2" "valid_smat ex_Y2" "finite_smat ex_Y2"
    "length [1, 2::complex] = 2" "[1, 2::complex] \<noteq> []"
    by (simp_all add: ex_Y2_def valid_smat_def finite_smat_def)
  from dS_dVa_rows_sum_to_zero[OF h]
  obtain dVm dVa where ret: "dSbus_dV ex_Y2 [1, 2] = Inr (dVm, dVa)"
    and shape: "nrows dVa = 2" "ncols dVa = 2"
    and rows: "\<forall>i<2. (\<Sum>j<2. entry dVa i j) = 0"
    by blast
  have two: "(\<Sum>j<2. g j) = g 0 + g 1" for g :: "nat \<Rightarrow> cval"
    by (simp add: numeral_2_eq_2)
  have r0: "entry dVa 0 0 + entry dVa 0 1 = 0" and r1: "entry dVa 1 0 + entry dVa 1 1 = 0"
    using rows[rule_format, of 0] rows[rule_format, of 1] by (simp_all add: two)
  from dSbus_dV_entries[OF h(1,2,5) _ h(3)] ret
  have e: "\<forall>i<2. \<forall>j<2. entry dVa i j =
           Fin (\<i> * [1, 2] ! i) * conj_cval ((if i = j then Ibus ex_Y2 [1, 2] i else 0)
                                     + - (entry ex_Y2 i j * Fin ([1, 2] ! j)))"
    by auto
  have y: "entry ex_Y2 0 0 = Fin 1" "entry ex_Y2 0 (Suc 0) = Fin 2"
    by (simp_all add: entry_def ex_Y2_def)
  have i0: "Ibus ex_Y2 [1, 2] 0 = Fin 5"
    by (simp add: Ibus_def two y)
  have "entry dVa 0 1 = Fin (- (4 * \<i>))"
    using e[rule_format, of 0 1] by (simp add: y Fin_zero[symmetric])
  moreover have "entry dVa 0 0 = Fin (4 * \<i>)"
    using e[rule_format, of 0 0] by (simp add: y i0)
  ultimately show ?thesis
    using h ret shape r0 r1 by blast
qed

text \<open>
  C6, as the code has it. For every valid square \<open>Ybus\<close> and every vector \<open>V\<close> of its size
  with a zero entry at position \<open>k\<close>, \<open>dSbus_dV\<close> raises no error: \<open>V / abs(V)\<close> is \<open>0 / 0\<close>
  there, the call returns the two matrices, and the diagonal entry \<open>(k, k)\<close> of \<open>dS_dVm\<close>
  is non-finite.
\<close>

theorem zero_voltage_returns_non_finite:
  assumes "nrows Ybus = length V" "ncols Ybus = length V" "valid_smat Ybus"
    and "k < length V" "cmod (V ! k) = 0"
  shows "\<exists>dS_dVm dS_dVa. dSbus_dV Ybus V = Inr (dS_dVm, dS_dVa)
           \<and> entry dS_dVm k k = NonFin"
proof -
  have n: "0 < length V" using assms(4) by auto
  have "Vnorm V ! k = NonFin"
    using assms(4,5) by (simp add: Vnorm_nth)
  with dSbus_dV_entries[OF assms(1,2) refl n assms(3)] assms(4) show ?thesis
    by auto
qed

theorem zero_voltage_returns_non_finite_witness:
  "nrows ex_Y1 = length [0::complex] \<and> ncols ex_Y1 = length [0::complex] \<and> valid_smat ex_Y1
   \<and> (0::nat) < length [0::complex] \<and> cmod ([0::complex] ! 0) = 0
   \<and> (\<exists>dS_dVm dS_dVa. dSbus_dV ex_Y1 [0] = Inr (dS_dVm, dS_dVa)
           \<and> entry dS_dVm 0 0 = NonFin)"
proof -
  have h: "nrows ex_Y1 = length [0::complex]" "ncols ex_Y1 = length [0::complex]"
    "valid_smat ex_Y1" "(0::nat) < length [0::complex]" "cmod ([0::complex] ! 0) = 0"
    by (simp_all add: ex_Y1_def valid_smat_def)
  from zero_voltage_returns_non_finite[OF h] h show ?thesis
    by blast
qed

text \<open>The claim as stated fails: a zero voltage, and the call returns a matrix with a
  non-finite entry.\<close>

theorem zero_voltage_counterexample:
  "cmod ([0::complex] ! 0) = 0
   \<and> \<not> raised (dSbus_dV ex_Y1 [0])
   \<and> entry (dS_dVm_ret (dSbus_dV ex_Y1 [0])) 0 0 = NonFin"
proof -
  have h: "nrows ex_Y1 = 1" "ncols ex_Y1 = 1" "length [0::complex] = 1" "0 < (1::nat)"
    "valid_smat ex_Y1"
    by (simp_all add: ex_Y1_def valid_smat_def)
  from dSbus_dV_entries[OF h]
  obtain dVm dVa where ret: "dSbus_dV ex_Y1 [0] = Inr (dVm, dVa)"
    and e: "entry dVm 0 0 =
           Fin ([0] ! 0) * conj_cval (\<Sum>x \<leftarrow> elems ex_Y1. if fst x = 0 \<and> fst (snd x) = 0
                                  then snd (snd x) * Vnorm [0] ! 0 else 0)
           + (if (0::nat) = 0 then conj_cval (Ibus ex_Y1 [0] 0) * Vnorm [0] ! 0 else 0)"
    by auto
  have "Vnorm [0] ! 0 = NonFin"
    by (simp add: Vnorm_def)
  then have "entry dVm 0 0 = NonFin"
    unfolding e by simp
  then show ?thesis
    by (simp add: ret raised_def dS_dVm_ret_def)
qed


end
